theory Spec2Isabelle
  imports Main "HOL-Library.Word"
begin

section \<open>Values of the source language\<close>

text \<open>
  The parser of \<^verbatim>\<open>dtb_parser.py\<close> works on three kinds of Python values: \<^verbatim>\<open>bytes\<close>
  (the raw data of a property), \<^verbatim>\<open>str\<close> and \<^verbatim>\<open>int\<close>. A byte is an 8-bit word and a
  Python integer is an \<open>int\<close>. Node names, property names and paths, which the external
  decoder hands over as text, are \<open>string\<close>s. Text that the parser itself decodes from
  UTF-8 can hold any Unicode code point, so it is a list of code points (\<open>ustr\<close>).
\<close>

type_synonym byte = "8 word"
type_synonym ustr = "nat list"

datatype error = IndexError | KeyError

text \<open>Indexing a list with a non-negative constant, \<^verbatim>\<open>xs[i]\<close>: out of range raises.\<close>

definition index_py :: "'a list \<Rightarrow> nat \<Rightarrow> error + 'a" where
  "index_py xs i = (if i < length xs then Inr (xs ! i) else Inl IndexError)"

text \<open>
  \<^verbatim>\<open>xs.split(sep)\<close> with a separator of one element, on \<^verbatim>\<open>bytes\<close> and on \<^verbatim>\<open>str\<close>:
  the segments between the separators, in order, empty ones included; the empty input
  gives one empty segment.
\<close>

fun split_py :: "'a \<Rightarrow> 'a list \<Rightarrow> 'a list list" where
  "split_py sep [] = [[]]"
| "split_py sep (x # xs) =
     (if x = sep then [] # split_py sep xs
      else (case split_py sep xs of
              [] \<Rightarrow> [[x]]
            | p # ps \<Rightarrow> (x # p) # ps))"

text \<open>\<^verbatim>\<open>int.from_bytes(bs, byteorder='big')\<close>.\<close>

definition from_bytes_big :: "byte list \<Rightarrow> int" where
  "from_bytes_big bs = foldl (\<lambda>acc b. acc * 256 + uint b) 0 bs"

text \<open>The slice \<^verbatim>\<open>xs[i:j]\<close> for \<open>0 \<le> i \<le> j\<close>; a slice never raises, it is cut at the end.\<close>

definition slice :: "'a list \<Rightarrow> nat \<Rightarrow> nat \<Rightarrow> 'a list" where
  "slice xs i j = take (j - i) (drop i xs)"

text \<open>\<^verbatim>\<open>range(start, stop, step)\<close> for a positive step, as the list it iterates over.\<close>

function range_py :: "nat \<Rightarrow> nat \<Rightarrow> nat \<Rightarrow> nat list" where
  "range_py start stop step =
     (if step = 0 \<or> stop \<le> start then []
      else start # range_py (start + step) stop step)"
  by pat_completeness auto
termination
  by (relation "measure (\<lambda>(start, stop, step). stop - start)") auto

declare range_py.simps [simp del]

text \<open>
  \<^verbatim>\<open>bs.decode('utf-8', errors='ignore')\<close>, after CPython's decoder: a well-formed
  sequence gives its code point; an ill-formed one is dropped up to its maximal valid
  prefix (one byte for a byte that cannot start a sequence, the bytes read so far for a
  wrong continuation byte), and decoding goes on behind it; a sequence cut off by the end
  of the data is dropped whole. Overlong forms, surrogates and code points above
  \<open>0x10FFFF\<close> are ill-formed.
\<close>

definition is_continuation :: "nat \<Rightarrow> bool" where
  "is_continuation c = (128 \<le> c \<and> c < 192)"

text \<open>
  One step of the decoder at the first byte \<open>c\<close> of what is left, \<open>s\<close> being the bytes
  behind it: the code point read, if any, and the number of bytes the step uses up.
\<close>

definition utf8_step :: "nat \<Rightarrow> nat list \<Rightarrow> nat option \<times> nat" where
  "utf8_step c s =
     (if c < 128 then (Some c, 1)
      else if c < 194 then (None, 1)
      else if c < 224 then
        (case s of
           [] \<Rightarrow> (None, 1)
         | c2 # s2 \<Rightarrow>
             if is_continuation c2 then (Some ((c - 192) * 64 + (c2 - 128)), 2)
             else (None, 1))
      else if c < 240 then
        (case s of
           [] \<Rightarrow> (None, 1)
         | c2 # s2 \<Rightarrow>
             if \<not> is_continuation c2 \<or> (if c2 < 160 then c = 224 else c = 237)
             then (None, 1)
             else (case s2 of
                     [] \<Rightarrow> (None, 2)
                   | c3 # s3 \<Rightarrow>
                       if \<not> is_continuation c3 then (None, 2)
                       else (Some ((c - 224) * 4096 + (c2 - 128) * 64 + (c3 - 128)), 3)))
      else if c < 245 then
        (case s of
           [] \<Rightarrow> (None, 1)
         | c2 # s2 \<Rightarrow>
             if \<not> is_continuation c2 \<or> (if c2 < 144 then c = 240 else c = 244)
             then (None, 1)
             else (case s2 of
                     [] \<Rightarrow> (None, 2)
                   | c3 # s3 \<Rightarrow>
                       if \<not> is_continuation c3 then (None, 2)
                       else (case s3 of
                               [] \<Rightarrow> (None, 3)
                             | c4 # s4 \<Rightarrow>
                                 if \<not> is_continuation c4 then (None, 3)
                                 else (Some ((c - 240) * 262144 + (c2 - 128) * 4096
                                               + (c3 - 128) * 64 + (c4 - 128)), 4))))
      else (None, 1))"

function utf8_ignore :: "nat list \<Rightarrow> ustr" where
  "utf8_ignore [] = []"
| "utf8_ignore (c # s) =
     (case utf8_step c s of
        (None, n) \<Rightarrow> utf8_ignore (drop n (c # s))
      | (Some cp, n) \<Rightarrow> cp # utf8_ignore (drop n (c # s)))"
  by pat_completeness auto
termination
proof (relation "measure length")
  have pos: "0 < snd (utf8_step c s)" for c s
    unfolding utf8_step_def by (simp split: list.split)
  show "wf (measure length)" by simp
  show "(drop n (c # s), c # s) \<in> measure length" if "(r, n) = utf8_step c s" for c s r n
    using pos [of c s] that [symmetric] by simp
  show "(drop n (c # s), c # s) \<in> measure length" if "(r, n) = utf8_step c s" for c s r n cp
    using pos [of c s] that [symmetric] by simp
qed

definition decode_utf8_ignore :: "byte list \<Rightarrow> ustr" where
  "decode_utf8_ignore bs = utf8_ignore (map unat bs)"

section \<open>The decoder's objects\<close>

text \<open>
  The module \<^verbatim>\<open>fdt\<close> is an external library. The parser uses three operations of a node
  of it: \<^verbatim>\<open>props()\<close>, the pairs of a property's name and the property, \<^verbatim>\<open>subnodes()\<close>,
  the pairs of a child's name and the child, both in the order of the blob, and
  \<^verbatim>\<open>get_property(name)\<close>; of a property it reads the bytes \<^verbatim>\<open>data\<close>.
\<close>

datatype fdt_property = Property (data: "byte list")

datatype fdt_node =
  Node (props: "(string \<times> fdt_property) list") (subnodes: "(string \<times> fdt_node) list")

text \<open>
  \<^verbatim>\<open>node.get_property(name)\<close>: the property of that name, and \<^verbatim>\<open>KeyError\<close>, which the
  parser catches, when the node has none. The names of a node's properties are unique in
  a blob; the lookup takes the first pair of that name.
\<close>

definition get_property :: "fdt_node \<Rightarrow> string \<Rightarrow> error + fdt_property" where
  "get_property node name =
     (case map_of (props node) name of None \<Rightarrow> Inl KeyError | Some p \<Rightarrow> Inr p)"

section \<open>Decoding one property\<close>

datatype pvalue =
    PStr ustr
  | PStrList "ustr list"
  | PInt int
  | PIntList "int list"
  | PBytes "byte list"

text \<open>\<^verbatim>\<open>DtbParser._decode_property\<close>.\<close>

definition decode_property :: "fdt_property \<Rightarrow> error + pvalue" where
  "decode_property prop_value =
     (let d = data prop_value in
      if 0 \<in> set d \<and> \<not> list_all (\<lambda>b. b = 0) d then
        (let string_parts = split_py 0 d;
             string_parts = map decode_utf8_ignore (filter (\<lambda>part. part \<noteq> []) string_parts)
         in if length string_parts = 1
            then (case index_py string_parts 0 of
                    Inl e \<Rightarrow> Inl e
                  | Inr s \<Rightarrow> Inr (PStr s))
            else Inr (PStrList string_parts))
      else if length d mod 4 = 0 \<and> length d > 0 then
        (let cells = map (\<lambda>i. from_bytes_big (slice d i (i + 4))) (range_py 0 (length d) 4)
         in if length cells = 1
            then (case index_py cells 0 of
                    Inl e \<Rightarrow> Inl e
                  | Inr c \<Rightarrow> Inr (PInt c))
            else Inr (PIntList cells))
      else Inr (PBytes d))"

section \<open>The parser\<close>

text \<open>
  Whether \<^verbatim>\<open>if phandle_prop:\<close> and \<^verbatim>\<open>if compatible_prop:\<close> take their branch is
  Python's truth value of a property object, which the class of the external library
  decides. It is a parameter \<open>truthy\<close> of the functions that test it.
\<close>

text \<open>
  \<^verbatim>\<open>traverse_for_phandle\<close>, the function nested in \<^verbatim>\<open>DtbParser._build_phandle_map\<close>.
  It updates the dictionary \<^verbatim>\<open>phandle_map\<close> of the enclosing call, which the model
  passes through; \<open>traverse_for_phandle_subnodes\<close> is its loop over the children.
\<close>

function traverse_for_phandle ::
    "(fdt_property \<Rightarrow> bool) \<Rightarrow> string \<Rightarrow> fdt_node \<Rightarrow> (int \<rightharpoonup> string) \<Rightarrow> (int \<rightharpoonup> string)"
  and traverse_for_phandle_subnodes ::
    "(fdt_property \<Rightarrow> bool) \<Rightarrow> string \<Rightarrow> (string \<times> fdt_node) list \<Rightarrow> (int \<rightharpoonup> string)
       \<Rightarrow> (int \<rightharpoonup> string)"
where
  "traverse_for_phandle truthy node_path node phandle_map =
     traverse_for_phandle_subnodes truthy node_path (subnodes node)
       (case get_property node ''phandle'' of
          Inl e \<Rightarrow> phandle_map
        | Inr phandle_prop \<Rightarrow>
            if truthy phandle_prop
            then phandle_map(from_bytes_big (slice (data phandle_prop) 0 4) \<mapsto> node_path)
            else phandle_map)"
| "traverse_for_phandle_subnodes truthy node_path [] phandle_map = phandle_map"
| "traverse_for_phandle_subnodes truthy node_path ((child_name, child_node) # rest) phandle_map =
     traverse_for_phandle_subnodes truthy node_path rest
       (traverse_for_phandle truthy
          (if node_path \<noteq> ''/'' then node_path @ ''/'' @ child_name else ''/'' @ child_name)
          child_node phandle_map)"
  by pat_completeness auto
termination
proof (relation "measure (\<lambda>x. case x of
          Inl (t, p, n, m) \<Rightarrow> size n
        | Inr (t, p, cs, m) \<Rightarrow> size_list (size_prod (\<lambda>_. 0) size) cs)")
  have "size_list (size_prod (\<lambda>_. 0) size) (subnodes n) < size n" for n :: fdt_node
    by (cases n) simp
  then show "\<And>truthy node_path node phandle_map.
      (Inr (truthy, node_path, subnodes node,
            case get_property node ''phandle'' of
              Inl e \<Rightarrow> phandle_map
            | Inr phandle_prop \<Rightarrow>
                if truthy phandle_prop
                then phandle_map(from_bytes_big (slice (data phandle_prop) 0 4) \<mapsto> node_path)
                else phandle_map),
       Inl (truthy, node_path, node, phandle_map))
      \<in> measure (\<lambda>x. case x of
          Inl (t, p, n, m) \<Rightarrow> size n
        | Inr (t, p, cs, m) \<Rightarrow> size_list (size_prod (\<lambda>_. 0) size) cs)"
    by simp
qed auto

definition build_phandle_map :: "(fdt_property \<Rightarrow> bool) \<Rightarrow> fdt_node \<Rightarrow> (int \<rightharpoonup> string)" where
  "build_phandle_map truthy root = traverse_for_phandle truthy ''/'' root Map.empty"

text \<open>
  The object: \<^verbatim>\<open>__init__\<close> keeps the decoded blob and the phandle index. Reading the
  file and \<^verbatim>\<open>fdt.parse_dtb\<close> are outside the module; \<open>DtbParser\<close> is the constructor
  from the point where the decoder has returned the root.
\<close>

record dtb_parser =
  dtb :: fdt_node
  phandle_map :: "int \<rightharpoonup> string"

definition DtbParser :: "(fdt_property \<Rightarrow> bool) \<Rightarrow> fdt_node \<Rightarrow> dtb_parser" where
  "DtbParser truthy root = \<lparr>dtb = root, phandle_map = build_phandle_map truthy root\<rparr>"

text \<open>\<^verbatim>\<open>xs[-1]\<close>: the last element, \<^verbatim>\<open>IndexError\<close> on the empty list.\<close>

definition index_last :: "'a list \<Rightarrow> error + 'a" where
  "index_last xs = (if xs = [] then Inl IndexError else Inr (last xs))"

text \<open>The class \<^verbatim>\<open>FdtNode\<close>.\<close>

datatype FdtNode =
  FdtNode (fn_name: string) (fn_path: string) (fn_properties: "string \<rightharpoonup> pvalue")
    (fn_children: "FdtNode list")

text \<open>
  \<^verbatim>\<open>DtbParser._convert_fdt_node_to_custom\<close>, with its two loops: \<open>convert_props\<close> fills
  the dictionary \<^verbatim>\<open>props\<close> and \<open>convert_subnodes\<close> appends to \<^verbatim>\<open>children\<close>.
\<close>

fun convert_props ::
  "(string \<times> fdt_property) list \<Rightarrow> (string \<rightharpoonup> pvalue) \<Rightarrow> error + (string \<rightharpoonup> pvalue)" where
  "convert_props [] props' = Inr props'"
| "convert_props ((prop_name, prop_value) # rest) props' =
     (case decode_property prop_value of
        Inl e \<Rightarrow> Inl e
      | Inr v \<Rightarrow> convert_props rest (props'(prop_name \<mapsto> v)))"

function convert_fdt_node_to_custom :: "string \<Rightarrow> fdt_node \<Rightarrow> error + FdtNode"
  and convert_subnodes :: "string \<Rightarrow> (string \<times> fdt_node) list \<Rightarrow> error + FdtNode list"
where
  "convert_fdt_node_to_custom path fdt_node =
     (case convert_props (props fdt_node) Map.empty of
        Inl e \<Rightarrow> Inl e
      | Inr props' \<Rightarrow>
          (case convert_subnodes path (subnodes fdt_node) of
             Inl e \<Rightarrow> Inl e
           | Inr children \<Rightarrow>
               (case (if path \<noteq> ''/'' then index_last (split_py CHR ''/'' path) else Inr []) of
                  Inl e \<Rightarrow> Inl e
                | Inr node_name \<Rightarrow> Inr (FdtNode node_name path props' children))))"
| "convert_subnodes path [] = Inr []"
| "convert_subnodes path ((child_name, child_node) # rest) =
     (case convert_fdt_node_to_custom
             (if path \<noteq> ''/'' then path @ ''/'' @ child_name else ''/'' @ child_name) child_node of
        Inl e \<Rightarrow> Inl e
      | Inr child \<Rightarrow>
          (case convert_subnodes path rest of
             Inl e \<Rightarrow> Inl e
           | Inr children \<Rightarrow> Inr (child # children)))"
  by pat_completeness auto
termination
proof (relation "measure (\<lambda>x. case x of
          Inl (p, n) \<Rightarrow> size n
        | Inr (p, cs) \<Rightarrow> size_list (size_prod (\<lambda>_. 0) size) cs)")
  have "size_list (size_prod (\<lambda>_. 0) size) (subnodes n) < size n" for n :: fdt_node
    by (cases n) simp
  then show "\<And>path fdt_node x.
      (Inr (path, subnodes fdt_node), Inl (path, fdt_node))
      \<in> measure (\<lambda>x. case x of
          Inl (p, n) \<Rightarrow> size n
        | Inr (p, cs) \<Rightarrow> size_list (size_prod (\<lambda>_. 0) size) cs)"
    by simp
qed auto

definition get_root_node :: "dtb_parser \<Rightarrow> error + FdtNode" where
  "get_root_node self = convert_fdt_node_to_custom ''/'' (dtb self)"

text \<open>
  \<^verbatim>\<open>DtbParser.traverse_tree\<close> and the function \<^verbatim>\<open>build_node_dict\<close> nested in it. The
  dictionary it returns has the five keys \<^verbatim>\<open>path\<close>, \<^verbatim>\<open>name\<close>, \<^verbatim>\<open>address\<close>,
  \<^verbatim>\<open>props\<close> and \<^verbatim>\<open>children\<close>; \<^verbatim>\<open>None\<close> as the address is \<open>None\<close>.
\<close>

datatype node_dict =
  NodeDict (nd_path: string) (nd_name: string) (nd_address: "string option")
    (nd_props: "string \<rightharpoonup> pvalue") (nd_children: "node_dict list")

fun build_props ::
  "(string \<times> fdt_property) list \<Rightarrow> (string \<rightharpoonup> pvalue) \<Rightarrow> error + (string \<rightharpoonup> pvalue)" where
  "build_props [] props' = Inr props'"
| "build_props ((prop_name, prop_value) # rest) props' =
     (case decode_property prop_value of
        Inl e \<Rightarrow> Inl e
      | Inr v \<Rightarrow> build_props rest (props'(prop_name \<mapsto> v)))"

function build_node_dict :: "string \<Rightarrow> fdt_node \<Rightarrow> error + node_dict"
  and build_subnodes :: "string \<Rightarrow> (string \<times> fdt_node) list \<Rightarrow> error + node_dict list"
where
  "build_node_dict path fdt_node =
     (case build_props (props fdt_node) Map.empty of
        Inl e \<Rightarrow> Inl e
      | Inr props' \<Rightarrow>
          (case (if path \<noteq> ''/'' then index_last (split_py CHR ''/'' path) else Inr []) of
             Inl e \<Rightarrow> Inl e
           | Inr node_name \<Rightarrow>
               (case (if CHR ''@'' \<in> set node_name
                      then map_sum id Some (index_py (split_py CHR ''@'' node_name) 1)
                      else Inr None) of
                  Inl e \<Rightarrow> Inl e
                | Inr address \<Rightarrow>
                    (case build_subnodes path (subnodes fdt_node) of
                       Inl e \<Rightarrow> Inl e
                     | Inr children \<Rightarrow>
                         Inr (NodeDict path node_name address props' children)))))"
| "build_subnodes path [] = Inr []"
| "build_subnodes path ((child_name, child_node) # rest) =
     (case build_node_dict
             (if path \<noteq> ''/'' then path @ ''/'' @ child_name else ''/'' @ child_name) child_node of
        Inl e \<Rightarrow> Inl e
      | Inr child \<Rightarrow>
          (case build_subnodes path rest of
             Inl e \<Rightarrow> Inl e
           | Inr children \<Rightarrow> Inr (child # children)))"
  by pat_completeness auto
termination
proof (relation "measure (\<lambda>x. case x of
          Inl (p, n) \<Rightarrow> size n
        | Inr (p, cs) \<Rightarrow> size_list (size_prod (\<lambda>_. 0) size) cs)")
  have "size_list (size_prod (\<lambda>_. 0) size) (subnodes n) < size n" for n :: fdt_node
    by (cases n) simp
  then show "\<And>path fdt_node x.
      (Inr (path, subnodes fdt_node), Inl (path, fdt_node))
      \<in> measure (\<lambda>x. case x of
          Inl (p, n) \<Rightarrow> size n
        | Inr (p, cs) \<Rightarrow> size_list (size_prod (\<lambda>_. 0) size) cs)"
    by simp
qed auto

definition traverse_tree :: "dtb_parser \<Rightarrow> error + node_dict list" where
  "traverse_tree self =
     (case build_node_dict ''/'' (dtb self) of Inl e \<Rightarrow> Inl e | Inr d \<Rightarrow> Inr [d])"

text \<open>\<^verbatim>\<open>DtbParser.get_compatible_strings\<close>.\<close>

definition get_compatible_strings :: "(fdt_property \<Rightarrow> bool) \<Rightarrow> dtb_parser \<Rightarrow> ustr list" where
  "get_compatible_strings truthy self =
     (case get_property (dtb self) ''compatible'' of
        Inl e \<Rightarrow> []
      | Inr compatible_prop \<Rightarrow>
          if truthy compatible_prop
          then map decode_utf8_ignore
                 (filter (\<lambda>part. part \<noteq> []) (split_py 0 (data compatible_prop)))
          else [])"

text \<open>
  \<^verbatim>\<open>DtbParser.resolve_phandle\<close>: \<^verbatim>\<open>dict.get\<close> gives \<^verbatim>\<open>None\<close> for a key that is
  missing, where \<^verbatim>\<open>d[k]\<close> would raise. The method returns its result and the object as
  it leaves it.
\<close>

definition dict_get :: "('k \<rightharpoonup> 'v) \<Rightarrow> 'k \<Rightarrow> error + 'v option" where
  "dict_get d k = Inr (d k)"

definition resolve_phandle :: "dtb_parser \<Rightarrow> int \<Rightarrow> (error + string option) \<times> dtb_parser" where
  "resolve_phandle self phandle_value = (dict_get (phandle_map self) phandle_value, self)"

section \<open>Notions of the specification\<close>

text \<open>
  The definitions of this section are not translated from the code. They say, in the
  specification's words, what the theorems below compare the code with.
\<close>

text \<open>Rule 2 of the property decoder: cell \<open>k\<close> of the data, four bytes read big-endian.\<close>

definition be32_at :: "byte list \<Rightarrow> nat \<Rightarrow> int" where
  "be32_at d k =
     uint (d ! (4 * k)) * 2 ^ 24 + uint (d ! (4 * k + 1)) * 2 ^ 16
       + uint (d ! (4 * k + 2)) * 2 ^ 8 + uint (d ! (4 * k + 3))"

text \<open>The strings a decoded value holds: one, several, or none when it is not text.\<close>

fun strings_of :: "pvalue \<Rightarrow> ustr list" where
  "strings_of (PStr s) = [s]"
| "strings_of (PStrList ss) = ss"
| "strings_of _ = []"

text \<open>The segments of rule 1 that are left after the empty ones are discarded.\<close>

definition surviving :: "byte list \<Rightarrow> byte list list" where
  "surviving d = filter (\<lambda>part. part \<noteq> []) (split_py 0 d)"

text \<open>
  A byte that no UTF-8 sequence can start with: a continuation byte, \<open>0xC0\<close>, \<open>0xC1\<close>,
  or \<open>0xF5\<close> and above. A segment made of such bytes holds no text at all.
\<close>

definition undecodable :: "byte \<Rightarrow> bool" where
  "undecodable b = (128 \<le> unat b \<and> unat b < 194 \<or> 245 \<le> unat b)"

text \<open>
  Path joining: the root's children get a single leading slash, every other child the
  parent's path, a slash and its name.
\<close>

definition join_path :: "string \<Rightarrow> string \<Rightarrow> string" where
  "join_path parent name = (if parent = ''/'' then ''/'' @ name else parent @ ''/'' @ name)"

text \<open>The depth-first walk: every node of the blob with its path, parents first.\<close>

function walk :: "string \<Rightarrow> fdt_node \<Rightarrow> (string \<times> fdt_node) list"
  and walk_subnodes :: "string \<Rightarrow> (string \<times> fdt_node) list \<Rightarrow> (string \<times> fdt_node) list"
where
  "walk path node = (path, node) # walk_subnodes path (subnodes node)"
| "walk_subnodes path [] = []"
| "walk_subnodes path ((name, child) # rest) =
     walk (join_path path name) child @ walk_subnodes path rest"
  by pat_completeness auto
termination
proof (relation "measure (\<lambda>x. case x of
          Inl (p, n) \<Rightarrow> size n
        | Inr (p, cs) \<Rightarrow> size_list (size_prod (\<lambda>_. 0) size) cs)")
  have "size_list (size_prod (\<lambda>_. 0) size) (subnodes n) < size n" for n :: fdt_node
    by (cases n) simp
  then show "\<And>path node.
      (Inr (path, subnodes node), Inl (path, node))
      \<in> measure (\<lambda>x. case x of
          Inl (p, n) \<Rightarrow> size n
        | Inr (p, cs) \<Rightarrow> size_list (size_prod (\<lambda>_. 0) size) cs)"
    by simp
qed auto

text \<open>
  What a node declares to the phandle index: the key is the big-endian value of the
  first four bytes of its \<^verbatim>\<open>phandle\<close> property (of all its bytes when there are fewer),
  the value is its path; nothing when it has no such property or the property object
  counts as false.
\<close>

definition phandle_key :: "fdt_property \<Rightarrow> int" where
  "phandle_key pr = from_bytes_big (take 4 (data pr))"

definition declared_by :: "(fdt_property \<Rightarrow> bool) \<Rightarrow> string \<times> fdt_node \<Rightarrow> (int \<times> string) list" where
  "declared_by truthy pn =
     (case get_property (snd pn) ''phandle'' of
        Inl e \<Rightarrow> []
      | Inr pr \<Rightarrow> if truthy pr then [(phandle_key pr, fst pn)] else [])"

definition declared :: "(fdt_property \<Rightarrow> bool) \<Rightarrow> fdt_node \<Rightarrow> (int \<times> string) list" where
  "declared truthy root = concat (map (declared_by truthy) (walk ''/'' root))"

text \<open>The nodes of a tree of \<open>FdtNode\<close>s and of a tree of records, parents first.\<close>

fun fn_nodes :: "FdtNode \<Rightarrow> FdtNode list" where
  "fn_nodes (FdtNode n p ps cs) = FdtNode n p ps cs # concat (map fn_nodes cs)"

fun nd_nodes :: "node_dict \<Rightarrow> node_dict list" where
  "nd_nodes (NodeDict p n a ps cs) = NodeDict p n a ps cs # concat (map nd_nodes cs)"

text \<open>A record without its address is an \<open>FdtNode\<close>: the two output shapes compared.\<close>

fun without_address :: "node_dict \<Rightarrow> FdtNode" where
  "without_address (NodeDict p n a ps cs) = FdtNode n p ps (map without_address cs)"

fun has_double_slash :: "string \<Rightarrow> bool" where
  "has_double_slash [] = False"
| "has_double_slash [a] = False"
| "has_double_slash (a # b # s) = (a = CHR ''/'' \<and> b = CHR ''/'' \<or> has_double_slash (b # s))"

text \<open>Every node below the root has a name that is not empty and holds no slash.\<close>

function well_named :: "fdt_node \<Rightarrow> bool"
  and well_named_subnodes :: "(string \<times> fdt_node) list \<Rightarrow> bool"
where
  "well_named node = well_named_subnodes (subnodes node)"
| "well_named_subnodes [] = True"
| "well_named_subnodes ((name, child) # rest) =
     (name \<noteq> [] \<and> CHR ''/'' \<notin> set name \<and> well_named child \<and> well_named_subnodes rest)"
  by pat_completeness auto
termination
proof (relation "measure (\<lambda>x. case x of
          Inl n \<Rightarrow> size n
        | Inr cs \<Rightarrow> size_list (size_prod (\<lambda>_. 0) size) cs)")
  have "size_list (size_prod (\<lambda>_. 0) size) (subnodes n) < size n" for n :: fdt_node
    by (cases n) simp
  then show "\<And>node.
      (Inr (subnodes node), Inl node)
      \<in> measure (\<lambda>x. case x of
          Inl n \<Rightarrow> size n
        | Inr cs \<Rightarrow> size_list (size_prod (\<lambda>_. 0) size) cs)"
    by simp
qed auto

text \<open>The part of a string behind the first occurrence of a character.\<close>

definition after_first :: "'a \<Rightarrow> 'a list \<Rightarrow> 'a list" where
  "after_first c s = tl (dropWhile (\<lambda>x. x \<noteq> c) s)"

text \<open>The name of a node, read off its path: the last segment, empty for the root.\<close>

definition last_segment :: "string \<Rightarrow> string" where
  "last_segment path = (if path = ''/'' then [] else last (split_py CHR ''/'' path))"

text \<open>
  The address as the code computes it: the part of the name between the first \<open>@\<close>
  and the next one, or the end of the name; \<open>None\<close> for a name without \<open>@\<close>.
\<close>

definition unit_address :: "string \<Rightarrow> string option" where
  "unit_address name =
     (if CHR ''@'' \<in> set name
      then Some (takeWhile (\<lambda>c. c \<noteq> CHR ''@'') (after_first CHR ''@'' name))
      else None)"

text \<open>
  The shape of a path built from names that are not empty and hold no slash: the root's
  path, or a path without a double slash that does not end in a slash.
\<close>

definition good_path :: "string \<Rightarrow> bool" where
  "good_path p = (p = ''/'' \<or> (\<not> has_double_slash p \<and> p \<noteq> [] \<and> last p \<noteq> CHR ''/''))"

section \<open>Example blobs\<close>

text \<open>
  The blob of the specification's end-to-end example, \<^verbatim>\<open>compatible = "acme,board\0"\<close>
  on the root and a child \<^verbatim>\<open>uart@1000\<close> with \<^verbatim>\<open>phandle = <0x5>\<close> and
  \<^verbatim>\<open>reg = <0x1000 0x100>\<close>, with a second child that declares the same phandle.
\<close>

definition example_blob :: fdt_node where
  "example_blob =
     Node [(''compatible'', Property [97, 99, 109, 101, 44, 98, 111, 97, 114, 100, 0])]
       [(''uart@1000'',
         Node [(''phandle'', Property [0, 0, 0, 5]), (''reg'', Property [0, 0, 16, 0, 0, 0, 1, 0])]
           []),
        (''spi@2000'', Node [(''phandle'', Property [0, 0, 0, 5])] [])]"

text \<open>A child whose \<^verbatim>\<open>phandle\<close> property has two bytes of data.\<close>

definition short_phandle_blob :: fdt_node where
  "short_phandle_blob = Node [] [(''n'', Node [(''phandle'', Property [1, 2])] [])]"

text \<open>
  A child \<^verbatim>\<open>a\<close> whose \<^verbatim>\<open>phandle\<close> property has the four bytes of the value 5, and
  a later child \<^verbatim>\<open>b\<close> whose \<^verbatim>\<open>phandle\<close> property is the single byte 5.
\<close>

definition stolen_key_blob :: fdt_node where
  "stolen_key_blob =
     Node [] [(''a'', Node [(''phandle'', Property [0, 0, 0, 5])] []),
              (''b'', Node [(''phandle'', Property [5])] [])]"

text \<open>A node with an empty name between \<^verbatim>\<open>a\<close> and \<^verbatim>\<open>b\<close>.\<close>

definition odd_names_blob :: fdt_node where
  "odd_names_blob = Node [] [(''a'', Node [] [([], Node [] [(''b'', Node [] [])])])]"

text \<open>A child whose name holds \<open>@\<close> twice.\<close>

definition two_at_blob :: fdt_node where
  "two_at_blob = Node [] [(''a@b@c'', Node [] [])]"

text \<open>A root with \<^verbatim>\<open>compatible = b"foo\x00bar\x00"\<close>.\<close>

definition foo_bar_blob :: fdt_node where
  "foo_bar_blob = Node [(''compatible'', Property [102, 111, 111, 0, 98, 97, 114, 0])] []"

text \<open>
  The equations of the three functions that take a node unfold without end under the
  simplifier when the node is a variable; the proofs unfold them by hand.
\<close>

declare traverse_for_phandle.simps [simp del]

declare convert_fdt_node_to_custom.simps [simp del]

declare build_node_dict.simps [simp del]

section \<open>Lists, slices and ranges\<close>

lemma split_py_not_Nil: "split_py sep xs \<noteq> []"
  by (induction xs) (auto split: list.splits)

lemma split_py_segments: "p \<in> set (split_py sep xs) \<Longrightarrow> set p \<subseteq> set xs - {sep}"
proof (induction xs arbitrary: p)
  case Nil
  then show ?case by simp
next
  case (Cons x xs)
  show ?case
  proof (cases "x = sep")
    case True
    with Cons show ?thesis by auto
  next
    case False
    obtain q qs where q: "split_py sep xs = q # qs"
      using split_py_not_Nil [of sep xs] by (cases "split_py sep xs") auto
    with False Cons.prems have "p = x # q \<or> p \<in> set qs" by simp
    then show ?thesis
    proof
      assume "p = x # q"
      moreover have "set q \<subseteq> set xs - {sep}" using Cons.IH [of q] q by simp
      ultimately show ?thesis using False by auto
    next
      assume "p \<in> set qs"
      then have "set p \<subseteq> set xs - {sep}" using Cons.IH [of p] q by simp
      then show ?thesis by auto
    qed
  qed
qed

lemma split_py_has_segment:
  "\<exists>x \<in> set xs. x \<noteq> sep \<Longrightarrow> \<exists>p \<in> set (split_py sep xs). p \<noteq> []"
proof (induction xs)
  case Nil
  then show ?case by simp
next
  case (Cons x xs)
  show ?case
  proof (cases "x = sep")
    case True
    with Cons show ?thesis by auto
  next
    case False
    then show ?thesis by (auto split: list.splits)
  qed
qed

lemma surviving_segments_not_Nil:
  assumes "\<not> list_all (\<lambda>b. b = sep) xs"
  shows "filter (\<lambda>p. p \<noteq> []) (split_py sep xs) \<noteq> []"
proof -
  from assms have "\<exists>x \<in> set xs. x \<noteq> sep" by (simp add: list_all_iff)
  then have "\<exists>p \<in> set (split_py sep xs). p \<noteq> []" by (rule split_py_has_segment)
  then obtain p where p: "p \<in> set (split_py sep xs)" "p \<noteq> []" ..
  then have "p \<in> set (filter (\<lambda>p. p \<noteq> []) (split_py sep xs))" by simp
  then show ?thesis by (metis empty_iff empty_set)
qed

lemma range_py_4: "i \<le> n \<Longrightarrow> range_py (4 * i) (4 * n) 4 = map (\<lambda>k. 4 * k) [i..<n]"
proof (induction "n - i" arbitrary: i)
  case 0
  then show ?case by (subst range_py.simps) simp
next
  case (Suc m)
  then have lt: "i < n" and m: "m = n - Suc i" by auto
  have "range_py (4 * i) (4 * n) 4 = 4 * i # range_py (4 * Suc i) (4 * n) 4"
    using lt by (subst range_py.simps) (simp add: add.commute)
  also have "range_py (4 * Suc i) (4 * n) 4 = map (\<lambda>k. 4 * k) [Suc i..<n]"
    using Suc.hyps(1) [of "Suc i"] m lt by simp
  finally show ?case using lt by (simp add: upt_conv_Cons)
qed

lemma from_bytes_big_4:
  "from_bytes_big [a, b, c, e] = uint a * 16777216 + uint b * 65536 + uint c * 256 + uint e"
  by (simp add: from_bytes_big_def)

lemma slice_4:
  assumes "4 * k + 3 < length d"
  shows "slice d (4 * k) (4 * k + 4) =
           [d ! (4 * k), d ! (4 * k + 1), d ! (4 * k + 2), d ! (4 * k + 3)]"
proof -
  have a: "drop (4 * k) d = d ! (4 * k) # drop (Suc (4 * k)) d"
    using assms by (simp add: Cons_nth_drop_Suc)
  have b: "drop (Suc (4 * k)) d = d ! (4 * k + 1) # drop (Suc (Suc (4 * k))) d"
    using assms Cons_nth_drop_Suc [of "Suc (4 * k)" d] by simp
  have c: "drop (Suc (Suc (4 * k))) d = d ! (4 * k + 2) # drop (Suc (Suc (Suc (4 * k)))) d"
    using assms Cons_nth_drop_Suc [of "Suc (Suc (4 * k))" d] by simp
  have e: "drop (Suc (Suc (Suc (4 * k)))) d
             = d ! (4 * k + 3) # drop (Suc (Suc (Suc (Suc (4 * k))))) d"
    using assms Cons_nth_drop_Suc [of "Suc (Suc (Suc (4 * k)))" d]
    by (simp add: numeral_3_eq_3)
  have "take 4 (drop (4 * k) d)
          = [d ! (4 * k), d ! (4 * k + 1), d ! (4 * k + 2), d ! (4 * k + 3)]"
    unfolding a b c e by (simp add: numeral_eq_Suc)
  then show ?thesis by (simp add: slice_def)
qed

lemma decode_property_string:
  assumes "0 \<in> set (data p)" and "\<not> list_all (\<lambda>b. b = 0) (data p)"
  shows "decode_property p =
           (if length (surviving (data p)) = 1
            then Inr (PStr (decode_utf8_ignore (hd (surviving (data p)))))
            else Inr (PStrList (map decode_utf8_ignore (surviving (data p)))))"
proof (cases "length (surviving (data p)) = 1")
  case True
  then obtain s where s: "surviving (data p) = [s]"
    by (cases "surviving (data p)") auto
  with assms show ?thesis
    by (simp add: decode_property_def surviving_def index_py_def)
next
  case False
  with assms show ?thesis
    by (simp add: decode_property_def surviving_def)
qed

lemma cells_eq:
  assumes "length d mod 4 = 0"
  shows "map (\<lambda>i. from_bytes_big (slice d i (i + 4))) (range_py 0 (length d) 4)
           = map (be32_at d) [0..<length d div 4]"
proof -
  define n where "n = length d div 4"
  have len: "length d = 4 * n" using assms by (simp add: n_def) presburger
  have "range_py (4 * 0) (4 * n) 4 = map (\<lambda>k. 4 * k) [0..<n]"
    by (rule range_py_4) simp
  then have r: "range_py 0 (length d) 4 = map (\<lambda>k. 4 * k) [0..<n]"
    by (simp add: len)
  have "from_bytes_big (slice d (4 * k) (4 * k + 4)) = be32_at d k" if "k < n" for k
  proof -
    from that have "4 * k + 3 < length d" by (simp add: len)
    then show ?thesis by (simp add: slice_4 from_bytes_big_4 be32_at_def)
  qed
  then show ?thesis unfolding r n_def [symmetric] by (simp add: comp_def)
qed

lemma decode_property_cells:
  assumes "\<not> (0 \<in> set (data p) \<and> \<not> list_all (\<lambda>b. b = 0) (data p))"
    and "length (data p) mod 4 = 0" and "data p \<noteq> []"
  shows "decode_property p =
           (if length (data p) = 4 then Inr (PInt (be32_at (data p) 0))
            else Inr (PIntList (map (be32_at (data p)) [0..<length (data p) div 4])))"
proof -
  let ?d = "data p"
  let ?cells = "map (\<lambda>i. from_bytes_big (slice ?d i (i + 4))) (range_py 0 (length ?d) 4)"
  have cells: "?cells = map (be32_at ?d) [0..<length ?d div 4]"
    using assms(2) by (rule cells_eq)
  have len1: "length ?cells = 1 \<longleftrightarrow> length ?d = 4"
    unfolding cells using assms(2) by simp presburger
  have no: "(0 \<in> set ?d \<and> \<not> list_all (\<lambda>b. b = 0) ?d) = False"
    using assms(1) by simp
  have yes: "(length ?d mod 4 = 0 \<and> length ?d > 0) = True"
    using assms(2,3) by simp
  have step: "decode_property p =
      (if length ?cells = 1
       then (case index_py ?cells 0 of Inl e \<Rightarrow> Inl e | Inr c \<Rightarrow> Inr (PInt c))
       else Inr (PIntList ?cells))"
    unfolding decode_property_def Let_def no yes by (simp only: if_False if_True)
  show ?thesis
  proof (cases "length ?d = 4")
    case True
    then have "?cells = [be32_at ?d 0]" unfolding cells by simp
    with True show ?thesis unfolding step by (simp add: index_py_def)
  next
    case False
    then have "length ?cells \<noteq> 1" using len1 by simp
    with False show ?thesis unfolding step cells [symmetric] by simp
  qed
qed

lemma be32_at_range: "0 \<le> be32_at d k \<and> be32_at d k < 2 ^ 32"
proof -
  have b: "0 \<le> uint x \<and> uint x < 256" for x :: byte
    using uint_lt2p [of x] by simp
  show ?thesis
    unfolding be32_at_def
    using b [of "d ! (4 * k)"] b [of "d ! (4 * k + 1)"] b [of "d ! (4 * k + 2)"]
      b [of "d ! (4 * k + 3)"]
    by simp
qed

lemma utf8_ignore_undecodable:
  "\<forall>c \<in> set s. 128 \<le> c \<and> c < 194 \<or> 245 \<le> c \<Longrightarrow> utf8_ignore s = []"
proof (induction s)
  case Nil
  then show ?case by simp
next
  case (Cons c s)
  then have "utf8_step c s = (None, 1)" by (auto simp: utf8_step_def)
  with Cons show ?case by simp
qed

lemma decode_undecodable:
  "list_all undecodable bs \<Longrightarrow> decode_utf8_ignore bs = []"
  unfolding decode_utf8_ignore_def
  by (rule utf8_ignore_undecodable) (auto simp: list_all_iff undecodable_def)

lemma surviving_undecodable:
  assumes "list_all (\<lambda>b. b = 0 \<or> undecodable b) d"
  shows "map decode_utf8_ignore (surviving d) = replicate (length (surviving d)) []"
proof -
  have "decode_utf8_ignore s = []" if "s \<in> set (surviving d)" for s
  proof -
    from that have "set s \<subseteq> set d - {0}"
      using split_py_segments [of s 0 d] by (simp add: surviving_def)
    with assms have "list_all undecodable s" by (auto simp: list_all_iff)
    then show ?thesis by (rule decode_undecodable)
  qed
  then show ?thesis by (simp add: map_replicate_const [symmetric])
qed

lemma decode_property_returns: "\<exists>v. decode_property p = Inr v"
proof (cases "0 \<in> set (data p) \<and> \<not> list_all (\<lambda>b. b = 0) (data p)")
  case True
  then show ?thesis using decode_property_string [of p] by (simp split: if_splits)
next
  case no_string: False
  show ?thesis
  proof (cases "length (data p) mod 4 = 0 \<and> data p \<noteq> []")
    case True
    then show ?thesis using decode_property_cells [OF no_string] by (simp split: if_splits)
  next
    case False
    with no_string show ?thesis by (auto simp: decode_property_def)
  qed
qed

section \<open>The walk, the index and the traversals\<close>

lemma join_path_code:
  "(if p \<noteq> ''/'' then p @ ''/'' @ n else ''/'' @ n) = join_path p n"
  by (simp add: join_path_def)

lemma map_of_rev_last:
  "map_of (rev ds) k = Some v \<longleftrightarrow> (\<exists>ys zs. ds = ys @ (k, v) # zs \<and> k \<notin> fst ` set zs)"
proof (induction ds rule: rev_induct)
  case Nil
  then show ?case by simp
next
  case (snoc x xs)
  obtain a b where x: "x = (a, b)" by (cases x)
  show ?case
  proof (cases "k = a")
    case True
    have "(\<exists>ys zs. xs @ [(a, b)] = ys @ (a, v) # zs \<and> a \<notin> fst ` set zs) \<longleftrightarrow> b = v"
    proof
      assume "\<exists>ys zs. xs @ [(a, b)] = ys @ (a, v) # zs \<and> a \<notin> fst ` set zs"
      then obtain ys zs where e: "xs @ [(a, b)] = ys @ (a, v) # zs" and n: "a \<notin> fst ` set zs"
        by blast
      show "b = v"
      proof (cases zs rule: rev_cases)
        case Nil
        with e show ?thesis by simp
      next
        case (snoc zs' z)
        with e have "z = (a, b)" by simp
        with snoc n show ?thesis by simp
      qed
    next
      assume "b = v"
      then have "xs @ [(a, b)] = xs @ (a, v) # [] \<and> a \<notin> fst ` set []" by simp
      then show "\<exists>ys zs. xs @ [(a, b)] = ys @ (a, v) # zs \<and> a \<notin> fst ` set zs" by blast
    qed
    with True x show ?thesis by auto
  next
    case False
    have "(\<exists>ys zs. xs @ [(a, b)] = ys @ (k, v) # zs \<and> k \<notin> fst ` set zs)
            \<longleftrightarrow> (\<exists>ys zs. xs = ys @ (k, v) # zs \<and> k \<notin> fst ` set zs)"
    proof
      assume "\<exists>ys zs. xs @ [(a, b)] = ys @ (k, v) # zs \<and> k \<notin> fst ` set zs"
      then obtain ys zs where e: "xs @ [(a, b)] = ys @ (k, v) # zs" and n: "k \<notin> fst ` set zs"
        by blast
      show "\<exists>ys zs. xs = ys @ (k, v) # zs \<and> k \<notin> fst ` set zs"
      proof (cases zs rule: rev_cases)
        case Nil
        with e False show ?thesis by simp
      next
        case (snoc zs' z)
        with e have "xs = ys @ (k, v) # zs'" by simp
        moreover from snoc n have "k \<notin> fst ` set zs'" by simp
        ultimately show ?thesis by blast
      qed
    next
      assume "\<exists>ys zs. xs = ys @ (k, v) # zs \<and> k \<notin> fst ` set zs"
      then obtain ys zs where e: "xs = ys @ (k, v) # zs" and n: "k \<notin> fst ` set zs"
        by blast
      then have "xs @ [(a, b)] = ys @ (k, v) # (zs @ [(a, b)]) \<and> k \<notin> fst ` set (zs @ [(a, b)])"
        using False by simp
      then show "\<exists>ys zs. xs @ [(a, b)] = ys @ (k, v) # zs \<and> k \<notin> fst ` set zs" by blast
    qed
    with False x snoc.IH show ?thesis by simp
  qed
qed

lemma declared_by_update:
  "(case get_property node ''phandle'' of
      Inl e \<Rightarrow> m
    | Inr phandle_prop \<Rightarrow>
        if truthy phandle_prop
        then m(from_bytes_big (slice (data phandle_prop) 0 4) \<mapsto> node_path)
        else m)
   = m ++ map_of (rev (declared_by truthy (node_path, node)))"
  by (simp add: declared_by_def phandle_key_def slice_def split: sum.split)

lemma traverse_for_phandle_walk:
  "traverse_for_phandle truthy node_path node m
     = m ++ map_of (rev (concat (map (declared_by truthy) (walk node_path node))))"
  "traverse_for_phandle_subnodes truthy node_path cs m
     = m ++ map_of (rev (concat (map (declared_by truthy) (walk_subnodes node_path cs))))"
proof (induction truthy node_path node m and truthy node_path cs m
    rule: traverse_for_phandle_traverse_for_phandle_subnodes.induct)
  case (1 truthy node_path node phandle_map)
  have "traverse_for_phandle truthy node_path node phandle_map
      = traverse_for_phandle_subnodes truthy node_path (subnodes node)
          (phandle_map ++ map_of (rev (declared_by truthy (node_path, node))))"
    by (subst traverse_for_phandle.simps) (simp only: declared_by_update)
  also have "\<dots> = (phandle_map ++ map_of (rev (declared_by truthy (node_path, node))))
      ++ map_of (rev (concat (map (declared_by truthy) (walk_subnodes node_path (subnodes node)))))"
    using "1.IH" by (simp only: declared_by_update)
  finally show ?case by simp
next
  case (2 truthy node_path phandle_map)
  show ?case by simp
next
  case (3 truthy node_path child_name child_node rest phandle_map)
  show ?case
    apply (subst traverse_for_phandle_subnodes.simps)
    apply (subst "3.IH"(2))
    apply (subst "3.IH"(1))
    apply (simp add: join_path_code)
    done
qed

lemma build_phandle_map_declared:
  "build_phandle_map truthy root = map_of (rev (declared truthy root))"
  unfolding build_phandle_map_def declared_def traverse_for_phandle_walk by simp

lemma from_bytes_big_take_4:
  assumes "4 \<le> length d"
  shows "from_bytes_big (take 4 d) = be32_at d 0"
proof -
  have s: "slice d (4 * 0) (4 * 0 + 4)
             = [d ! (4 * 0), d ! (4 * 0 + 1), d ! (4 * 0 + 2), d ! (4 * 0 + 3)]"
    using assms by (intro slice_4) simp
  have "from_bytes_big (slice d (4 * 0) (4 * 0 + 4)) = be32_at d 0"
    unfolding s from_bytes_big_4 be32_at_def by simp
  moreover have "slice d (4 * 0) (4 * 0 + 4) = take 4 d" by (simp add: slice_def)
  ultimately show ?thesis by simp
qed

lemma declared_example:
  "declared (\<lambda>pr. True) example_blob = [(5, ''/uart@1000''), (5, ''/spi@2000'')]"
  by (simp add: declared_def declared_by_def example_blob_def get_property_def join_path_def
      phandle_key_def from_bytes_big_def)

lemma declared_member:
  assumes "(path, node) \<in> set (walk ''/'' root)"
    and "get_property node ''phandle'' = Inr pr" and "truthy pr"
  shows "(phandle_key pr, path) \<in> set (declared truthy root)"
proof -
  have "(phandle_key pr, path) \<in> set (declared_by truthy (path, node))"
    using assms(2,3) by (simp add: declared_by_def)
  with assms(1) show ?thesis unfolding declared_def by auto
qed

lemma declared_key_indexed:
  assumes "(k, path) \<in> set (declared truthy root)"
  shows "\<exists>winner. build_phandle_map truthy root k = Some winner"
proof -
  from assms have "k \<in> fst ` set (rev (declared truthy root))" by force
  then have "map_of (rev (declared truthy root)) k \<noteq> None"
    by (simp add: map_of_eq_None_iff)
  then show ?thesis by (simp add: build_phandle_map_declared)
qed

lemma split_py_unfold:
  "split_py c s =
     takeWhile (\<lambda>x. x \<noteq> c) s # (if c \<in> set s then split_py c (after_first c s) else [])"
proof (induction s)
  case Nil
  then show ?case by simp
next
  case (Cons x xs)
  show ?case
  proof (cases "x = c")
    case True
    then show ?thesis by (simp add: after_first_def)
  next
    case False
    then show ?thesis by (simp add: Cons.IH after_first_def)
  qed
qed

lemma index_py_split_1:
  assumes "c \<in> set s"
  shows "index_py (split_py c s) 1 = Inr (takeWhile (\<lambda>x. x \<noteq> c) (after_first c s))"
proof -
  have "split_py c s = takeWhile (\<lambda>x. x \<noteq> c) s # split_py c (after_first c s)"
    using assms split_py_unfold [of c s] by simp
  moreover have "split_py c (after_first c s)
        = takeWhile (\<lambda>x. x \<noteq> c) (after_first c s) #
            (if c \<in> set (after_first c s) then split_py c (after_first c (after_first c s)) else [])"
    by (rule split_py_unfold)
  ultimately show ?thesis by (simp add: index_py_def)
qed

lemma after_first_single:
  "count_list s c = 1 \<Longrightarrow> c \<notin> set (after_first c s)"
proof (induction s)
  case Nil
  then show ?case by simp
next
  case (Cons x xs)
  show ?case
  proof (cases "x = c")
    case True
    with Cons.prems have "count_list xs c = 0" by simp
    then have "c \<notin> set xs" by (simp add: count_list_0_iff)
    with True show ?thesis by (simp add: after_first_def)
  next
    case False
    with Cons show ?thesis by (simp add: after_first_def)
  qed
qed

lemma node_name_returns:
  "(if path \<noteq> ''/'' then index_last (split_py CHR ''/'' path) else Inr []) = Inr (last_segment path)"
  by (simp add: index_last_def split_py_not_Nil last_segment_def)

lemma address_returns:
  "(if CHR ''@'' \<in> set node_name
    then map_sum id Some (index_py (split_py CHR ''@'' node_name) 1)
    else Inr None) = Inr (unit_address node_name)"
proof (cases "CHR ''@'' \<in> set node_name")
  case True
  then have "index_py (split_py CHR ''@'' node_name) 1
      = Inr (takeWhile (\<lambda>c. c \<noteq> CHR ''@'') (after_first CHR ''@'' node_name))"
    by (rule index_py_split_1)
  then show ?thesis using True by (simp only: unit_address_def if_True map_sum.simps)
next
  case False
  then show ?thesis by (simp add: unit_address_def)
qed

lemma props_loops_agree: "build_props ps m = convert_props ps m"
proof (induction ps arbitrary: m)
  case Nil
  show ?case by simp
next
  case (Cons x rest)
  obtain prop_name prop_value where x: "x = (prop_name, prop_value)" by (cases x)
  show ?case unfolding x by (simp only: build_props.simps convert_props.simps Cons.IH)
qed

lemma convert_props_returns: "\<exists>m'. convert_props ps m = Inr m'"
proof (induction ps arbitrary: m)
  case Nil
  show ?case by simp
next
  case (Cons x rest)
  obtain prop_name prop_value where x: "x = (prop_name, prop_value)" by (cases x)
  obtain v where v: "decode_property prop_value = Inr v"
    using decode_property_returns by blast
  show ?case unfolding x using Cons.IH [of "m(prop_name \<mapsto> v)"]
    by (simp only: convert_props.simps v sum.case)
qed

lemma build_node_dict_eq:
  assumes "convert_props (props fdt_node) Map.empty = Inr ps"
    and "build_subnodes path (subnodes fdt_node) = Inr ds"
  shows "build_node_dict path fdt_node
           = Inr (NodeDict path (last_segment path) (unit_address (last_segment path)) ps ds)"
  by (subst build_node_dict.simps)
    (simp only: props_loops_agree assms node_name_returns address_returns sum.case)

lemma convert_eq:
  assumes "convert_props (props fdt_node) Map.empty = Inr ps"
    and "convert_subnodes path (subnodes fdt_node) = Inr cs"
  shows "convert_fdt_node_to_custom path fdt_node = Inr (FdtNode (last_segment path) path ps cs)"
  by (subst convert_fdt_node_to_custom.simps)
    (simp only: assms node_name_returns sum.case)

lemma traversals_related:
  "\<exists>d. build_node_dict path fdt_node = Inr d
       \<and> convert_fdt_node_to_custom path fdt_node = Inr (without_address d)
       \<and> map nd_path (nd_nodes d) = map fst (walk path fdt_node)
       \<and> (\<forall>r \<in> set (nd_nodes d). nd_address r = unit_address (nd_name r))"
  "\<exists>ds. build_subnodes path cs = Inr ds
       \<and> convert_subnodes path cs = Inr (map without_address ds)
       \<and> concat (map (\<lambda>d. map nd_path (nd_nodes d)) ds) = map fst (walk_subnodes path cs)
       \<and> (\<forall>d \<in> set ds. \<forall>r \<in> set (nd_nodes d). nd_address r = unit_address (nd_name r))"
proof (induction path fdt_node and path cs rule: build_node_dict_build_subnodes.induct)
  case (1 path fdt_node)
  obtain ps where ps: "convert_props (props fdt_node) Map.empty = Inr ps"
    using convert_props_returns by blast
  then have "build_props (props fdt_node) Map.empty = Inr ps" by (simp add: props_loops_agree)
  from "1.IH" [OF this node_name_returns address_returns]
  obtain ds where ds: "build_subnodes path (subnodes fdt_node) = Inr ds"
    and cs: "convert_subnodes path (subnodes fdt_node) = Inr (map without_address ds)"
    and paths: "concat (map (\<lambda>d. map nd_path (nd_nodes d)) ds)
                  = map fst (walk_subnodes path (subnodes fdt_node))"
    and addr: "\<forall>d \<in> set ds. \<forall>r \<in> set (nd_nodes d). nd_address r = unit_address (nd_name r)"
    by blast
  let ?d = "NodeDict path (last_segment path) (unit_address (last_segment path)) ps ds"
  have "build_node_dict path fdt_node = Inr ?d" using ps ds by (rule build_node_dict_eq)
  moreover have "convert_fdt_node_to_custom path fdt_node = Inr (without_address ?d)"
    using convert_eq [OF ps cs] by simp
  moreover have "map nd_path (nd_nodes ?d) = map fst (walk path fdt_node)"
    using paths by (simp add: map_concat comp_def)
  moreover have "\<forall>r \<in> set (nd_nodes ?d). nd_address r = unit_address (nd_name r)"
    using addr by auto
  ultimately show ?case by blast
next
  case (2 path)
  show ?case by simp
next
  case (3 path child_name child_node rest)
  let ?child_path = "if path \<noteq> ''/'' then path @ ''/'' @ child_name else ''/'' @ child_name"
  from "3.IH"(1) obtain d where d: "build_node_dict ?child_path child_node = Inr d"
    and c: "convert_fdt_node_to_custom ?child_path child_node = Inr (without_address d)"
    and p: "map nd_path (nd_nodes d) = map fst (walk ?child_path child_node)"
    and a: "\<forall>r \<in> set (nd_nodes d). nd_address r = unit_address (nd_name r)"
    by blast
  from "3.IH"(2) [OF d] obtain ds where ds: "build_subnodes path rest = Inr ds"
    and cs: "convert_subnodes path rest = Inr (map without_address ds)"
    and ps: "concat (map (\<lambda>d. map nd_path (nd_nodes d)) ds) = map fst (walk_subnodes path rest)"
    and as: "\<forall>d \<in> set ds. \<forall>r \<in> set (nd_nodes d). nd_address r = unit_address (nd_name r)"
    by blast
  have "build_subnodes path ((child_name, child_node) # rest) = Inr (d # ds)"
    using d ds by simp
  moreover have "convert_subnodes path ((child_name, child_node) # rest)
                   = Inr (map without_address (d # ds))"
    using c cs by simp
  moreover have "concat (map (\<lambda>d. map nd_path (nd_nodes d)) (d # ds))
                   = map fst (walk_subnodes path ((child_name, child_node) # rest))"
    using p ps by (simp add: join_path_def)
  moreover have "\<forall>d' \<in> set (d # ds). \<forall>r \<in> set (nd_nodes d'). nd_address r = unit_address (nd_name r)"
    using a as by simp
  ultimately show ?case by blast
qed

lemma fn_nodes_without_address:
  "fn_nodes (without_address d) = map without_address (nd_nodes d)"
proof (induction d)
  case (NodeDict p n a ps cs)
  then show ?case by (simp add: comp_def map_concat cong: map_cong)
qed

lemma without_address_fields:
  "fn_path (without_address d) = nd_path d"
  "fn_name (without_address d) = nd_name d"
  "fn_properties (without_address d) = nd_props d"
  by (cases d; simp)+

lemma no_slash_no_double_slash: "CHR ''/'' \<notin> set s \<Longrightarrow> \<not> has_double_slash s"
  by (induction s rule: has_double_slash.induct) auto

lemma has_double_slash_append:
  "has_double_slash (xs @ ys) \<longleftrightarrow>
     has_double_slash xs \<or> has_double_slash ys
     \<or> (xs \<noteq> [] \<and> ys \<noteq> [] \<and> last xs = CHR ''/'' \<and> hd ys = CHR ''/'')"
proof (induction xs rule: has_double_slash.induct)
  case 1
  show ?case by simp
next
  case (2 a)
  show ?case by (cases ys) auto
next
  case (3 a b s)
  then show ?case by auto
qed

lemma good_path_join:
  assumes "good_path p" and "name \<noteq> []" and "CHR ''/'' \<notin> set name"
  shows "good_path (join_path p name)"
proof -
  have n: "\<not> has_double_slash name" using assms(3) by (rule no_slash_no_double_slash)
  have h: "hd name \<noteq> CHR ''/''" using assms(2,3) by (metis hd_in_set)
  have l: "last name \<noteq> CHR ''/''" using assms(2,3) by (metis last_in_set)
  have s: "\<not> has_double_slash (''/'' @ name)"
    unfolding has_double_slash_append using n h by simp
  show ?thesis
  proof (cases "p = ''/''")
    case True
    then show ?thesis using s l assms(2) by (simp add: join_path_def good_path_def)
  next
    case False
    with assms(1) have p: "\<not> has_double_slash p" "p \<noteq> []" "last p \<noteq> CHR ''/''"
      by (simp_all add: good_path_def)
    have "\<not> has_double_slash (p @ (''/'' @ name))"
      unfolding has_double_slash_append [of p] using p s by simp
    then show ?thesis using False l assms(2) by (simp add: join_path_def good_path_def)
  qed
qed

lemma good_path_no_double_slash: "good_path p \<Longrightarrow> \<not> has_double_slash p"
  by (auto simp: good_path_def)

lemma walk_good_paths:
  "good_path path \<Longrightarrow> well_named node \<Longrightarrow> \<forall>p \<in> set (map fst (walk path node)). good_path p"
  "good_path path \<Longrightarrow> well_named_subnodes cs
     \<Longrightarrow> \<forall>p \<in> set (map fst (walk_subnodes path cs)). good_path p"
proof (induction path node and path cs rule: walk_walk_subnodes.induct)
  case (1 path node)
  then show ?case by simp
next
  case (2 path)
  show ?case by simp
next
  case (3 path name child rest)
  from "3.prems" have "good_path (join_path path name)" by (simp add: good_path_join)
  with 3 show ?case by auto
qed

section \<open>The property decoder\<close>

text \<open>
  Claim C1. Whenever the data holds a null byte and is not made of null bytes only,
  \<^verbatim>\<open>_decode_property\<close> returns a single string or a sequence of strings: it does not
  fail, and it returns no integer, no sequence of integers and no raw bytes. Nothing is
  asked of the length, so this holds too when the length is a multiple of 4, where the
  cell rule would apply: the string rule comes first.
\<close>

theorem string_rule_gives_strings:
  assumes "0 \<in> set (data p)" and "\<not> list_all (\<lambda>b. b = 0) (data p)"
  shows "(\<exists>s. decode_property p = Inr (PStr s)) \<or> (\<exists>ss. decode_property p = Inr (PStrList ss))"
  using decode_property_string [OF assms] by (simp split: if_splits)

theorem string_rule_gives_strings_witness:
  "0 \<in> set (data (Property [97, 98, 99, 0]))
   \<and> \<not> list_all (\<lambda>b. b = 0) (data (Property [97, 98, 99, 0]))
   \<and> length (data (Property [97, 98, 99, 0])) mod 4 = 0
   \<and> ((\<exists>s. decode_property (Property [97, 98, 99, 0]) = Inr (PStr s))
        \<or> (\<exists>ss. decode_property (Property [97, 98, 99, 0]) = Inr (PStrList ss)))"
  using string_rule_gives_strings [of "Property [97, 98, 99, 0]"] by simp

text \<open>
  Claim C2. For data that is not empty, has a length that is a multiple of 4 and holds
  no null byte, \<^verbatim>\<open>_decode_property\<close> returns one integer when the length is 4 and a
  sequence of integers when it is more; cell \<open>k\<close> is the big-endian value of the bytes
  \<open>4k\<close> to \<open>4k + 3\<close>, in order, and every cell is an unsigned 32-bit value.
\<close>

theorem cell_rule_big_endian:
  assumes "data p \<noteq> []" and "length (data p) mod 4 = 0" and "0 \<notin> set (data p)"
  shows "(length (data p) = 4 \<longrightarrow> decode_property p = Inr (PInt (be32_at (data p) 0)))
       \<and> (length (data p) > 4 \<longrightarrow>
            decode_property p =
              Inr (PIntList (map (be32_at (data p)) [0..<length (data p) div 4])))
       \<and> (\<forall>k. 0 \<le> be32_at (data p) k \<and> be32_at (data p) k < 2 ^ 32)"
proof -
  have "\<not> (0 \<in> set (data p) \<and> \<not> list_all (\<lambda>b. b = 0) (data p))"
    using assms(3) by simp
  then have "decode_property p =
      (if length (data p) = 4 then Inr (PInt (be32_at (data p) 0))
       else Inr (PIntList (map (be32_at (data p)) [0..<length (data p) div 4])))"
    using assms(2,1) by (rule decode_property_cells)
  then show ?thesis using be32_at_range by simp
qed

theorem cell_rule_big_endian_witness:
  "data (Property [1, 2, 3, 4]) \<noteq> [] \<and> length (data (Property [1, 2, 3, 4])) mod 4 = 0
   \<and> 0 \<notin> set (data (Property [1, 2, 3, 4]))
   \<and> decode_property (Property [1, 2, 3, 4]) = Inr (PInt 16909060)
   \<and> 0 \<notin> set (data (Property [1, 2, 3, 4, 5, 6, 7, 8]))
   \<and> decode_property (Property [1, 2, 3, 4, 5, 6, 7, 8]) = Inr (PIntList [16909060, 84281096])"
  using cell_rule_big_endian [of "Property [1, 2, 3, 4]"]
    cell_rule_big_endian [of "Property [1, 2, 3, 4, 5, 6, 7, 8]"]
  by (simp add: be32_at_def upt_conv_Cons)

text \<open>
  Claim C3. \<^verbatim>\<open>_decode_property\<close> is total and deterministic: for every data, the empty
  one too, it returns exactly one value and does not fail. Data that neither the string
  rule (a null byte, not all null bytes) nor the cell rule (a length that is a multiple
  of 4 and not 0) matches comes back as the raw bytes, unchanged.
\<close>

theorem decode_property_total:
  "(\<exists>!v. decode_property p = Inr v)
   \<and> (\<not> (0 \<in> set (data p) \<and> \<not> list_all (\<lambda>b. b = 0) (data p))
        \<and> \<not> (length (data p) mod 4 = 0 \<and> length (data p) > 0)
      \<longrightarrow> decode_property p = Inr (PBytes (data p)))
   \<and> decode_property (Property []) = Inr (PBytes [])"
proof -
  have "\<exists>!v. decode_property p = Inr v"
    using decode_property_returns [of p] by auto
  moreover have "decode_property p = Inr (PBytes (data p))"
    if "\<not> (0 \<in> set (data p) \<and> \<not> list_all (\<lambda>b. b = 0) (data p))"
      and "\<not> (length (data p) mod 4 = 0 \<and> length (data p) > 0)"
    using that by (auto simp: decode_property_def)
  moreover have "decode_property (Property []) = Inr (PBytes [])"
    by (simp add: decode_property_def)
  ultimately show ?thesis by blast
qed

theorem decode_property_total_witness:
  "\<not> (0 \<in> set (data (Property [1, 2, 3]))
        \<and> \<not> list_all (\<lambda>b. b = 0) (data (Property [1, 2, 3])))
   \<and> \<not> (length (data (Property [1, 2, 3])) mod 4 = 0 \<and> length (data (Property [1, 2, 3])) > 0)
   \<and> decode_property (Property [1, 2, 3]) = Inr (PBytes [1, 2, 3])"
  using decode_property_total [of "Property [1, 2, 3]"] by simp

text \<open>
  Claim C6, as stated: a property whose value is a lone null byte decodes to a sequence
  of zero strings. It does not. A lone null byte is made of null bytes only, so the
  string rule does not apply to it; its length is not a multiple of 4; it comes back as
  the raw bytes.
\<close>

theorem lone_null_byte_is_raw_bytes:
  "decode_property (Property [0]) = Inr (PBytes [0])
   \<and> decode_property (Property [0]) \<noteq> Inr (PStrList [])"
  by (simp add: decode_property_def)

text \<open>
  Claim C6, amended. No property decodes to a sequence of zero strings: where the string
  rule applies, a byte that is not null is there, and its segment is kept. Data made of
  null bytes only, a lone null byte among them, is not string data: it is decoded by the
  cell rule when its length is a multiple of 4 and not 0 (every cell is 0), and comes
  back as the raw bytes otherwise.
\<close>

theorem never_zero_strings:
  "decode_property p \<noteq> Inr (PStrList [])
   \<and> (list_all (\<lambda>b. b = 0) (data p) \<longrightarrow>
        decode_property p =
          (if length (data p) mod 4 = 0 \<and> length (data p) > 0
           then (if length (data p) = 4 then Inr (PInt 0)
                 else Inr (PIntList (replicate (length (data p) div 4) 0)))
           else Inr (PBytes (data p))))"
proof -
  have a: "decode_property p \<noteq> Inr (PStrList [])"
  proof (cases "0 \<in> set (data p) \<and> \<not> list_all (\<lambda>b. b = 0) (data p)")
    case True
    then have "surviving (data p) \<noteq> []"
      unfolding surviving_def by (simp add: surviving_segments_not_Nil)
    with True show ?thesis using decode_property_string [of p] by simp
  next
    case no_string: False
    show ?thesis
    proof (cases "length (data p) mod 4 = 0 \<and> data p \<noteq> []")
      case True
      then show ?thesis using decode_property_cells [OF no_string] by (simp split: if_splits)
    next
      case False
      with no_string show ?thesis by (auto simp: decode_property_def)
    qed
  qed
  have b: "decode_property p =
          (if length (data p) mod 4 = 0 \<and> length (data p) > 0
           then (if length (data p) = 4 then Inr (PInt 0)
                 else Inr (PIntList (replicate (length (data p) div 4) 0)))
           else Inr (PBytes (data p)))"
    if zero: "list_all (\<lambda>b. b = 0) (data p)"
  proof (cases "length (data p) mod 4 = 0 \<and> data p \<noteq> []")
    case True
    have no_string: "\<not> (0 \<in> set (data p) \<and> \<not> list_all (\<lambda>b. b = 0) (data p))"
      using zero by simp
    have z: "be32_at (data p) k = 0" if "k < length (data p) div 4" for k
    proof -
      from that True have "4 * k + 3 < length (data p)" by presburger
      then have "data p ! (4 * k) = 0" "data p ! (4 * k + 1) = 0"
        "data p ! (4 * k + 2) = 0" "data p ! (4 * k + 3) = 0"
        using zero by (simp_all add: list_all_length)
      then show ?thesis by (simp add: be32_at_def)
    qed
    then have "map (be32_at (data p)) [0..<length (data p) div 4]
                 = replicate (length (data p) div 4) 0"
      by (simp add: list_eq_iff_nth_eq)
    moreover have "be32_at (data p) 0 = 0" if "length (data p) = 4"
      using z [of 0] that by simp
    ultimately show ?thesis
      using True decode_property_cells [OF no_string] by simp
  next
    case False
    with zero show ?thesis by (auto simp: decode_property_def)
  qed
  from a b show ?thesis by blast
qed

theorem never_zero_strings_witness:
  "list_all (\<lambda>b. b = 0) (data (Property [0, 0, 0]))
   \<and> decode_property (Property [0, 0, 0]) = Inr (PBytes [0, 0, 0])
   \<and> list_all (\<lambda>b. b = 0) (data (Property [0, 0, 0, 0]))
   \<and> decode_property (Property [0, 0, 0, 0]) = Inr (PInt 0)"
  using never_zero_strings [of "Property [0, 0, 0]"] never_zero_strings [of "Property [0, 0, 0, 0]"]
  by simp

text \<open>
  Claim C10. Empty segments are discarded before the segments are decoded, not after:
  for string data the result holds as many strings as the data has segments that are
  not empty, at least one. So a segment whose bytes are all undecodable stays, as the
  empty string: when the bytes of the data are null or undecodable, every string of the
  result is empty, and with one segment the result is the empty string itself
  (\<^verbatim>\<open>b'\xff\x00'\<close> gives \<^verbatim>\<open>''\<close>, \<^verbatim>\<open>b'\xff\x00\xfe\x00'\<close> gives \<^verbatim>\<open>['', '']\<close>).
\<close>

theorem undecodable_segments_are_kept:
  assumes "0 \<in> set (data p)" and "\<not> list_all (\<lambda>b. b = 0) (data p)"
  shows "\<exists>v. decode_property p = Inr v
           \<and> length (strings_of v) = length (surviving (data p))
           \<and> 0 < length (strings_of v)
           \<and> (list_all (\<lambda>b. b = 0 \<or> undecodable b) (data p) \<longrightarrow>
                strings_of v = replicate (length (surviving (data p))) []
                \<and> (length (surviving (data p)) = 1 \<longrightarrow> v = PStr []))"
proof -
  have ne: "surviving (data p) \<noteq> []"
    unfolding surviving_def using assms(2) by (rule surviving_segments_not_Nil)
  show ?thesis
  proof (cases "length (surviving (data p)) = 1")
    case True
    then obtain s where s: "surviving (data p) = [s]"
      by (cases "surviving (data p)") auto
    have "decode_utf8_ignore s = []" if "list_all (\<lambda>b. b = 0 \<or> undecodable b) (data p)"
      using surviving_undecodable [OF that] s by simp
    then show ?thesis using decode_property_string [OF assms] s by simp
  next
    case False
    then show ?thesis
      using decode_property_string [OF assms] ne surviving_undecodable [of "data p"] by simp
  qed
qed

theorem undecodable_segments_are_kept_witness:
  "decode_property (Property [255, 0]) = Inr (PStr [])
   \<and> decode_property (Property [255, 0, 254, 0]) = Inr (PStrList [[], []])"
proof -
  have s1: "surviving [255, 0] = [[255]]" and s2: "surviving [255, 0, 254, 0] = [[255], [254]]"
    by (simp_all add: surviving_def)
  have u: "undecodable 255" "undecodable 254" by (simp_all add: undecodable_def)
  have "0 \<in> set (data (Property [255, 0]))"
    and "\<not> list_all (\<lambda>b. b = 0) (data (Property [255, 0]))" by simp_all
  from undecodable_segments_are_kept [OF this]
  have one: "decode_property (Property [255, 0]) = Inr (PStr [])"
    using s1 u by simp
  have "0 \<in> set (data (Property [255, 0, 254, 0]))"
    and "\<not> list_all (\<lambda>b. b = 0) (data (Property [255, 0, 254, 0]))" by simp_all
  from undecodable_segments_are_kept [OF this]
  obtain v where v: "decode_property (Property [255, 0, 254, 0]) = Inr v"
    and "strings_of v = replicate (length (surviving [255, 0, 254, 0])) []"
    using u by auto
  then have "strings_of v = [[], []]" by (simp add: s2 numeral_2_eq_2)
  then have "v = PStrList [[], []]" by (cases v) simp_all
  with v one show ?thesis by simp
qed

section \<open>The phandle index\<close>

text \<open>
  Claim C4, as stated: the entries of the index are those of the nodes whose
  \<^verbatim>\<open>phandle\<close> property has at least 4 bytes of data, each under the big-endian value of
  the first 4 bytes and mapped to the node's path, the last visited winning among nodes
  of the same value. The code does not look at the length. In the first blob the only
  \<^verbatim>\<open>phandle\<close> property has 2 bytes, and the index still maps 258 to \<^verbatim>\<open>/n\<close>, whether
  every property object counts as true or only those with data do. In the second blob
  \<^verbatim>\<open>/a\<close> declares 5 with 4 bytes and \<^verbatim>\<open>/b\<close>, visited later, has the single byte 5:
  the index maps 5 to \<^verbatim>\<open>/b\<close>, not to the path of the only node with 4 bytes.
\<close>

theorem short_phandle_is_indexed:
  "map (\<lambda>pn. (fst pn, get_property (snd pn) ''phandle'')) (walk ''/'' short_phandle_blob)
     = [(''/'', Inl KeyError), (''/n'', Inr (Property [1, 2]))]
   \<and> length (data (Property [1, 2])) < 4
   \<and> build_phandle_map (\<lambda>pr. True) short_phandle_blob 258 = Some ''/n''
   \<and> build_phandle_map (\<lambda>pr. data pr \<noteq> []) short_phandle_blob 258 = Some ''/n''
   \<and> map (\<lambda>pn. (fst pn, get_property (snd pn) ''phandle'')) (walk ''/'' stolen_key_blob)
       = [(''/'', Inl KeyError), (''/a'', Inr (Property [0, 0, 0, 5])), (''/b'', Inr (Property [5]))]
   \<and> length (data (Property [5])) < 4
   \<and> build_phandle_map (\<lambda>pr. True) stolen_key_blob 5 = Some ''/b''
   \<and> build_phandle_map (\<lambda>pr. data pr \<noteq> []) stolen_key_blob 5 = Some ''/b''"
  by (simp add: short_phandle_blob_def stolen_key_blob_def get_property_def join_path_def
      build_phandle_map_def traverse_for_phandle.simps from_bytes_big_def slice_def)

text \<open>
  Claim C4, amended. The index built at construction holds the declarations of the
  depth-first walk and nothing else. A node declares its full path under a key when it has
  a property named \<^verbatim>\<open>phandle\<close> whose object counts as true, whatever the length of its
  data: the key is the big-endian value of the first 4 bytes, an unsigned 32-bit value,
  when the data has at least 4 bytes, and the big-endian value of all its bytes when it
  has fewer. The index has one entry for each declared key and no other, and the entry
  is the path of the node that declares the key last in the walk.
\<close>

theorem phandle_index_holds_the_declarations:
  "((k, path) \<in> set (declared truthy root) \<longleftrightarrow>
      (\<exists>node pr. (path, node) \<in> set (walk ''/'' root) \<and> get_property node ''phandle'' = Inr pr
         \<and> truthy pr \<and> k = phandle_key pr))
   \<and> (build_phandle_map truthy root k = Some path \<longleftrightarrow>
      (\<exists>before after. declared truthy root = before @ (k, path) # after \<and> k \<notin> fst ` set after))
   \<and> dom (build_phandle_map truthy root) = fst ` set (declared truthy root)
   \<and> (4 \<le> length (data p) \<longrightarrow>
        phandle_key p = be32_at (data p) 0 \<and> 0 \<le> phandle_key p \<and> phandle_key p < 2 ^ 32)
   \<and> (length (data p) < 4 \<longrightarrow> phandle_key p = from_bytes_big (data p))"
proof -
  have member: "(k, path) \<in> set (declared truthy root) \<longleftrightarrow>
      (\<exists>node pr. (path, node) \<in> set (walk ''/'' root) \<and> get_property node ''phandle'' = Inr pr
         \<and> truthy pr \<and> k = phandle_key pr)"
  proof
    assume "(k, path) \<in> set (declared truthy root)"
    then obtain pn where pn: "pn \<in> set (walk ''/'' root)"
      and d: "(k, path) \<in> set (declared_by truthy pn)"
      unfolding declared_def by auto
    obtain q node where q: "pn = (q, node)" by (cases pn)
    from d q have d': "(k, path) \<in> set (declared_by truthy (q, node))" by simp
    show "\<exists>node pr. (path, node) \<in> set (walk ''/'' root)
        \<and> get_property node ''phandle'' = Inr pr \<and> truthy pr \<and> k = phandle_key pr"
    proof (cases "get_property node ''phandle''")
      case (Inl e)
      with d' show ?thesis by (simp add: declared_by_def)
    next
      case (Inr pr)
      with d' have "truthy pr" "k = phandle_key pr" "path = q"
        by (auto simp: declared_by_def split: if_splits)
      with Inr pn q show ?thesis by blast
    qed
  next
    assume "\<exists>node pr. (path, node) \<in> set (walk ''/'' root)
        \<and> get_property node ''phandle'' = Inr pr \<and> truthy pr \<and> k = phandle_key pr"
    then obtain node pr where "(path, node) \<in> set (walk ''/'' root)"
      "get_property node ''phandle'' = Inr pr" "truthy pr" and k: "k = phandle_key pr"
      by blast
    then have "(phandle_key pr, path) \<in> set (declared truthy root)"
      using declared_member [of path node root pr truthy] by simp
    with k show "(k, path) \<in> set (declared truthy root)" by simp
  qed
  have last: "build_phandle_map truthy root k = Some path \<longleftrightarrow>
      (\<exists>before after. declared truthy root = before @ (k, path) # after \<and> k \<notin> fst ` set after)"
    unfolding build_phandle_map_declared by (rule map_of_rev_last)
  have keys: "dom (build_phandle_map truthy root) = fst ` set (declared truthy root)"
    by (simp add: build_phandle_map_declared dom_map_of_conv_image_fst)
  have long: "phandle_key p = be32_at (data p) 0 \<and> 0 \<le> phandle_key p \<and> phandle_key p < 2 ^ 32"
    if "4 \<le> length (data p)"
    using from_bytes_big_take_4 [OF that] be32_at_range [of "data p" 0]
    by (simp add: phandle_key_def)
  have short: "phandle_key p = from_bytes_big (data p)" if "length (data p) < 4"
    using that by (simp add: phandle_key_def)
  from member last keys long short show ?thesis by blast
qed

theorem phandle_index_holds_the_declarations_witness:
  "declared (\<lambda>pr. True) example_blob = [(5, ''/uart@1000''), (5, ''/spi@2000'')]
   \<and> build_phandle_map (\<lambda>pr. True) example_blob 5 = Some ''/spi@2000''
   \<and> dom (build_phandle_map (\<lambda>pr. True) example_blob) = {5}
   \<and> 4 \<le> length (data (Property [0, 0, 0, 5])) \<and> phandle_key (Property [0, 0, 0, 5]) = 5
   \<and> length (data (Property [1, 2])) < 4 \<and> phandle_key (Property [1, 2]) = 258"
proof -
  have "declared (\<lambda>pr. True) example_blob = [(5, ''/uart@1000'')] @ (5, ''/spi@2000'') # []
          \<and> (5::int) \<notin> fst ` set []"
    by (simp add: declared_example)
  then have "\<exists>before after. declared (\<lambda>pr. True) example_blob = before @ (5, ''/spi@2000'') # after
      \<and> (5::int) \<notin> fst ` set after"
    by blast
  then show ?thesis
    using phandle_index_holds_the_declarations
            [of 5 "''/spi@2000''" "\<lambda>pr. True" example_blob "Property [0, 0, 0, 5]"]
      phandle_index_holds_the_declarations
            [of 5 "''/spi@2000''" "\<lambda>pr. True" example_blob "Property [1, 2]"]
    by (simp add: be32_at_def from_bytes_big_def declared_example)
qed

section \<open>The two traversals\<close>

text \<open>
  Claim C5, as stated: the traversals never produce a double slash, for every decoded
  blob. A child with an empty name makes its own children's paths have one: under
  \<^verbatim>\<open>/a\<close> the empty name gives \<^verbatim>\<open>/a/\<close>, and its child \<^verbatim>\<open>b\<close> is at \<^verbatim>\<open>/a//b\<close>.
\<close>

theorem empty_name_gives_double_slash:
  "get_root_node (DtbParser (\<lambda>pr. True) odd_names_blob)
     = Inr (FdtNode [] ''/'' Map.empty
         [FdtNode ''a'' ''/a'' Map.empty
           [FdtNode [] ''/a/'' Map.empty
             [FdtNode ''b'' ''/a//b'' Map.empty []]]])
   \<and> has_double_slash ''/a//b''"
  by (simp add: get_root_node_def DtbParser_def odd_names_blob_def
      convert_fdt_node_to_custom.simps index_last_def)

text \<open>
  Claim C5, amended. For every decoded blob, \<^verbatim>\<open>get_root_node\<close> and \<^verbatim>\<open>traverse_tree\<close>
  both return, and the record tree without its addresses is the \<open>FdtNode\<close> tree: the
  same names, paths, decoded properties and children at every node. The paths are those
  of the walk (the root at \<^verbatim>\<open>/\<close>, a child at \<open>join_path\<close> of its parent's path and its
  name), in the same order. No path has a double slash when every node below the root
  has a name that is not empty and holds no slash.
\<close>

theorem traversals_agree:
  "\<exists>root_node record.
      get_root_node self = Inr root_node \<and> traverse_tree self = Inr [record]
    \<and> without_address record = root_node
    \<and> map fn_path (fn_nodes root_node) = map fst (walk ''/'' (dtb self))
    \<and> map nd_path (nd_nodes record) = map fst (walk ''/'' (dtb self))
    \<and> map fn_properties (fn_nodes root_node) = map nd_props (nd_nodes record)
    \<and> (well_named (dtb self) \<longrightarrow>
         (\<forall>p \<in> set (map fst (walk ''/'' (dtb self))). \<not> has_double_slash p))"
proof -
  from traversals_related(1) [of "''/''" "dtb self"]
  obtain d where d: "build_node_dict ''/'' (dtb self) = Inr d"
    and c: "convert_fdt_node_to_custom ''/'' (dtb self) = Inr (without_address d)"
    and p: "map nd_path (nd_nodes d) = map fst (walk ''/'' (dtb self))"
    by blast
  have "get_root_node self = Inr (without_address d)" using c by (simp add: get_root_node_def)
  moreover have "traverse_tree self = Inr [d]" using d by (simp add: traverse_tree_def)
  moreover have "map fn_path (fn_nodes (without_address d)) = map fst (walk ''/'' (dtb self))"
    using p by (simp add: fn_nodes_without_address without_address_fields comp_def)
  moreover have "map fn_properties (fn_nodes (without_address d)) = map nd_props (nd_nodes d)"
    by (simp add: fn_nodes_without_address without_address_fields comp_def)
  moreover have "\<forall>p \<in> set (map fst (walk ''/'' (dtb self))). \<not> has_double_slash p"
    if "well_named (dtb self)"
  proof -
    have "good_path ''/''" by (simp add: good_path_def)
    from walk_good_paths(1) [OF this that] show ?thesis
      using good_path_no_double_slash by blast
  qed
  ultimately show ?thesis using p by blast
qed

theorem traversals_agree_witness:
  "well_named example_blob
   \<and> get_root_node (DtbParser (\<lambda>pr. True) example_blob)
       = Inr (FdtNode [] ''/'' [''compatible'' \<mapsto> PStr [97, 99, 109, 101, 44, 98, 111, 97, 114, 100]]
           [FdtNode ''uart@1000'' ''/uart@1000''
              [''phandle'' \<mapsto> PStr [5], ''reg'' \<mapsto> PStrList [[16], [1]]] [],
            FdtNode ''spi@2000'' ''/spi@2000'' [''phandle'' \<mapsto> PStr [5]] []])
   \<and> map fst (walk ''/'' example_blob) = [''/'', ''/uart@1000'', ''/spi@2000'']
   \<and> \<not> has_double_slash ''/uart@1000'' \<and> \<not> has_double_slash ''/spi@2000''"
proof -
  have w: "well_named example_blob" by (simp add: example_blob_def)
  have p: "map fst (walk ''/'' example_blob) = [''/'', ''/uart@1000'', ''/spi@2000'']"
    by (simp add: example_blob_def join_path_def)
  have g: "get_root_node (DtbParser (\<lambda>pr. True) example_blob)
       = Inr (FdtNode [] ''/'' [''compatible'' \<mapsto> PStr [97, 99, 109, 101, 44, 98, 111, 97, 114, 100]]
           [FdtNode ''uart@1000'' ''/uart@1000''
              [''phandle'' \<mapsto> PStr [5], ''reg'' \<mapsto> PStrList [[16], [1]]] [],
            FdtNode ''spi@2000'' ''/spi@2000'' [''phandle'' \<mapsto> PStr [5]] []])"
    by (simp add: get_root_node_def DtbParser_def example_blob_def
        convert_fdt_node_to_custom.simps index_last_def decode_property_def index_py_def
        decode_utf8_ignore_def utf8_step_def)
  from traversals_agree [of "DtbParser (\<lambda>pr. True) example_blob"] w p g
  show ?thesis by simp
qed

text \<open>
  Claim C7, as stated: the address is the substring of the name after the first \<open>@\<close>.
  For a name with a second \<open>@\<close> it is not: \<^verbatim>\<open>split('@')[1]\<close> stops there, and the
  address of \<^verbatim>\<open>a@b@c\<close> is \<^verbatim>\<open>b\<close>, not \<^verbatim>\<open>b@c\<close>.
\<close>

theorem address_stops_at_second_at:
  "traverse_tree (DtbParser (\<lambda>pr. True) two_at_blob)
     = Inr [NodeDict ''/'' [] None Map.empty
              [NodeDict ''/a@b@c'' ''a@b@c'' (Some ''b'') Map.empty []]]
   \<and> after_first CHR ''@'' ''a@b@c'' = ''b@c''"
  by (simp add: traverse_tree_def DtbParser_def two_at_blob_def build_node_dict.simps
      index_last_def index_py_def after_first_def)

text \<open>
  Claim C7, amended. In every record of \<^verbatim>\<open>traverse_tree\<close>, a name without \<open>@\<close> has no
  address, and a name with \<open>@\<close> has as its address the part of the name after the
  first \<open>@\<close> up to the next \<open>@\<close>, or to the end when there is no other. For a name
  with exactly one \<open>@\<close> this is the substring after the first \<open>@\<close>.
\<close>

theorem record_address_is_unit_address:
  "\<exists>record. traverse_tree self = Inr [record]
     \<and> (\<forall>r \<in> set (nd_nodes record).
          (CHR ''@'' \<notin> set (nd_name r) \<longrightarrow> nd_address r = None)
        \<and> (CHR ''@'' \<in> set (nd_name r) \<longrightarrow>
             nd_address r
               = Some (takeWhile (\<lambda>c. c \<noteq> CHR ''@'') (after_first CHR ''@'' (nd_name r))))
        \<and> (count_list (nd_name r) CHR ''@'' = 1 \<longrightarrow>
             nd_address r = Some (after_first CHR ''@'' (nd_name r))))"
proof -
  from traversals_related(1) [of "''/''" "dtb self"]
  obtain d where d: "build_node_dict ''/'' (dtb self) = Inr d"
    and a: "\<forall>r \<in> set (nd_nodes d). nd_address r = unit_address (nd_name r)"
    by blast
  have single: "unit_address name = Some (after_first CHR ''@'' name)"
    if one: "count_list name CHR ''@'' = 1" for name
  proof -
    have "CHR ''@'' \<in> set name"
      using one count_list_0_iff [of name "CHR ''@''"] by auto
    moreover have "CHR ''@'' \<notin> set (after_first CHR ''@'' name)"
      using one by (rule after_first_single)
    then have "takeWhile (\<lambda>c. c \<noteq> CHR ''@'') (after_first CHR ''@'' name)
                 = after_first CHR ''@'' name"
      by (auto simp: takeWhile_eq_all_conv)
    ultimately show ?thesis by (simp add: unit_address_def)
  qed
  have "traverse_tree self = Inr [d]" using d by (simp add: traverse_tree_def)
  moreover have "\<forall>r \<in> set (nd_nodes d).
          (CHR ''@'' \<notin> set (nd_name r) \<longrightarrow> nd_address r = None)
        \<and> (CHR ''@'' \<in> set (nd_name r) \<longrightarrow>
             nd_address r
               = Some (takeWhile (\<lambda>c. c \<noteq> CHR ''@'') (after_first CHR ''@'' (nd_name r))))
        \<and> (count_list (nd_name r) CHR ''@'' = 1 \<longrightarrow>
             nd_address r = Some (after_first CHR ''@'' (nd_name r)))"
    using a single by (simp add: unit_address_def)
  ultimately show ?thesis by blast
qed

theorem record_address_is_unit_address_witness:
  "traverse_tree (DtbParser (\<lambda>pr. True) example_blob)
     = Inr [NodeDict ''/'' [] None
              [''compatible'' \<mapsto> PStr [97, 99, 109, 101, 44, 98, 111, 97, 114, 100]]
              [NodeDict ''/uart@1000'' ''uart@1000'' (Some ''1000'')
                 [''phandle'' \<mapsto> PStr [5], ''reg'' \<mapsto> PStrList [[16], [1]]] [],
               NodeDict ''/spi@2000'' ''spi@2000'' (Some ''2000'') [''phandle'' \<mapsto> PStr [5]] []]]
   \<and> count_list ''uart@1000'' CHR ''@'' = 1
   \<and> after_first CHR ''@'' ''uart@1000'' = ''1000''"
proof -
  have t: "traverse_tree (DtbParser (\<lambda>pr. True) example_blob)
     = Inr [NodeDict ''/'' [] None
              [''compatible'' \<mapsto> PStr [97, 99, 109, 101, 44, 98, 111, 97, 114, 100]]
              [NodeDict ''/uart@1000'' ''uart@1000'' (Some ''1000'')
                 [''phandle'' \<mapsto> PStr [5], ''reg'' \<mapsto> PStrList [[16], [1]]] [],
               NodeDict ''/spi@2000'' ''spi@2000'' (Some ''2000'') [''phandle'' \<mapsto> PStr [5]] []]]"
    by (simp add: traverse_tree_def DtbParser_def example_blob_def build_node_dict.simps
        index_last_def index_py_def decode_property_def decode_utf8_ignore_def utf8_step_def)
  have c: "count_list ''uart@1000'' CHR ''@'' = 1" by simp
  have a: "after_first CHR ''@'' ''uart@1000'' = ''1000''" by (simp add: after_first_def)
  from record_address_is_unit_address [of "DtbParser (\<lambda>pr. True) example_blob"] t c a
  show ?thesis by simp
qed

section \<open>Compatible strings and phandle lookup\<close>

text \<open>
  Claim C8. \<^verbatim>\<open>get_compatible_strings\<close> returns a sequence of strings, also for one
  string. When the root has a \<^verbatim>\<open>compatible\<close> property (whose object counts as true, as
  an object does unless its class says otherwise, or whose data is empty), the result is
  the data split at the null bytes, the empty segments discarded, every other segment
  decoded; \<^verbatim>\<open>b"foo\x00bar\x00"\<close> gives \<^verbatim>\<open>["foo", "bar"]\<close>. When the root has no
  such property, the result is the empty sequence.
\<close>

theorem compatible_strings_of_root:
  "(get_property (dtb self) ''compatible'' = Inr pr \<and> (truthy pr \<or> data pr = []) \<longrightarrow>
      get_compatible_strings truthy self = map decode_utf8_ignore (surviving (data pr)))
   \<and> (get_property (dtb self) ''compatible'' = Inl KeyError \<longrightarrow>
      get_compatible_strings truthy self = [])"
proof -
  have "get_compatible_strings truthy self = map decode_utf8_ignore (surviving (data pr))"
    if g: "get_property (dtb self) ''compatible'' = Inr pr" and t: "truthy pr \<or> data pr = []"
  proof (cases "truthy pr")
    case True
    with g show ?thesis by (simp add: get_compatible_strings_def surviving_def)
  next
    case False
    with t have "data pr = []" by blast
    with False g show ?thesis by (simp add: get_compatible_strings_def surviving_def)
  qed
  moreover have "get_compatible_strings truthy self = []"
    if "get_property (dtb self) ''compatible'' = Inl KeyError"
    using that by (simp add: get_compatible_strings_def)
  ultimately show ?thesis by blast
qed

theorem compatible_strings_of_root_witness:
  "get_property (dtb (DtbParser (\<lambda>pr. True) foo_bar_blob)) ''compatible''
     = Inr (Property [102, 111, 111, 0, 98, 97, 114, 0])
   \<and> get_compatible_strings (\<lambda>pr. True) (DtbParser (\<lambda>pr. True) foo_bar_blob)
       = [[102, 111, 111], [98, 97, 114]]
   \<and> get_compatible_strings (\<lambda>pr. True) (DtbParser (\<lambda>pr. True) example_blob)
       = [[97, 99, 109, 101, 44, 98, 111, 97, 114, 100]]
   \<and> get_property (dtb (DtbParser (\<lambda>pr. True) two_at_blob)) ''compatible'' = Inl KeyError
   \<and> get_compatible_strings (\<lambda>pr. True) (DtbParser (\<lambda>pr. True) two_at_blob) = []"
proof -
  have g1: "get_property (dtb (DtbParser (\<lambda>pr. True) foo_bar_blob)) ''compatible''
     = Inr (Property [102, 111, 111, 0, 98, 97, 114, 0])"
    by (simp add: DtbParser_def foo_bar_blob_def get_property_def)
  have g2: "get_property (dtb (DtbParser (\<lambda>pr. True) two_at_blob)) ''compatible'' = Inl KeyError"
    by (simp add: DtbParser_def two_at_blob_def get_property_def)
  have g3: "get_property (dtb (DtbParser (\<lambda>pr. True) example_blob)) ''compatible''
     = Inr (Property [97, 99, 109, 101, 44, 98, 111, 97, 114, 100, 0])"
    by (simp add: DtbParser_def example_blob_def get_property_def)
  have s1: "map decode_utf8_ignore (surviving [102, 111, 111, 0, 98, 97, 114, 0])
             = [[102, 111, 111], [98, 97, 114]]"
    by (simp add: surviving_def decode_utf8_ignore_def utf8_step_def)
  have s3: "map decode_utf8_ignore (surviving [97, 99, 109, 101, 44, 98, 111, 97, 114, 100, 0])
             = [[97, 99, 109, 101, 44, 98, 111, 97, 114, 100]]"
    by (simp add: surviving_def decode_utf8_ignore_def utf8_step_def)
  from compatible_strings_of_root [of "DtbParser (\<lambda>pr. True) foo_bar_blob"
      "Property [102, 111, 111, 0, 98, 97, 114, 0]" "\<lambda>pr. True"]
    compatible_strings_of_root [of "DtbParser (\<lambda>pr. True) example_blob"
      "Property [97, 99, 109, 101, 44, 98, 111, 97, 114, 100, 0]" "\<lambda>pr. True"]
    compatible_strings_of_root [of "DtbParser (\<lambda>pr. True) two_at_blob" _ "\<lambda>pr. True"]
    g1 g2 g3 s1 s3
  show ?thesis by simp
qed

text \<open>
  Claim C9. For every integer, \<^verbatim>\<open>resolve_phandle\<close> returns \<^verbatim>\<open>None\<close> when the value
  is not a key of the index and the indexed path when it is. It raises nothing, and it
  leaves the object, the index with it, as it was. On the object that the constructor
  builds from a blob, a value that no node declares resolves to \<^verbatim>\<open>None\<close>, and a
  declared value to the path of a node that declares it.
\<close>

theorem resolve_phandle_lookup:
  "(phandle_value \<notin> dom (phandle_map self) \<longrightarrow>
      resolve_phandle self phandle_value = (Inr None, self))
   \<and> (phandle_map self phandle_value = Some path \<longrightarrow>
      resolve_phandle self phandle_value = (Inr (Some path), self))
   \<and> (\<exists>r. resolve_phandle self phandle_value = (Inr r, self))
   \<and> (phandle_value \<notin> fst ` set (declared truthy root) \<longrightarrow>
      resolve_phandle (DtbParser truthy root) phandle_value = (Inr None, DtbParser truthy root))
   \<and> (phandle_value \<in> fst ` set (declared truthy root) \<longrightarrow>
      (\<exists>winner. resolve_phandle (DtbParser truthy root) phandle_value
                   = (Inr (Some winner), DtbParser truthy root)
                \<and> (phandle_value, winner) \<in> set (declared truthy root)))"
proof -
  have general: "resolve_phandle s phandle_value = (Inr (phandle_map s phandle_value), s)" for s
    by (simp add: resolve_phandle_def dict_get_def)
  have index: "phandle_map (DtbParser truthy root) = map_of (rev (declared truthy root))"
    by (simp add: DtbParser_def build_phandle_map_declared)
  have absent: "resolve_phandle (DtbParser truthy root) phandle_value
                  = (Inr None, DtbParser truthy root)"
    if "phandle_value \<notin> fst ` set (declared truthy root)"
  proof -
    from that have "map_of (rev (declared truthy root)) phandle_value = None"
      by (simp add: map_of_eq_None_iff)
    then show ?thesis by (simp add: general index)
  qed
  have present: "\<exists>winner. resolve_phandle (DtbParser truthy root) phandle_value
                   = (Inr (Some winner), DtbParser truthy root)
                \<and> (phandle_value, winner) \<in> set (declared truthy root)"
    if "phandle_value \<in> fst ` set (declared truthy root)"
  proof -
    from that obtain q where "(phandle_value, q) \<in> set (declared truthy root)" by force
    then obtain winner where w: "build_phandle_map truthy root phandle_value = Some winner"
      using declared_key_indexed by blast
    then have "map_of (rev (declared truthy root)) phandle_value = Some winner"
      by (simp add: build_phandle_map_declared)
    then have "(phandle_value, winner) \<in> set (declared truthy root)"
      using map_of_SomeD by fastforce
    moreover have "resolve_phandle (DtbParser truthy root) phandle_value
                     = (Inr (Some winner), DtbParser truthy root)"
      using w by (simp add: general DtbParser_def)
    ultimately show ?thesis by blast
  qed
  have "phandle_value \<notin> dom (phandle_map self) \<longrightarrow>
          resolve_phandle self phandle_value = (Inr None, self)"
    by (auto simp: general)
  moreover have "phandle_map self phandle_value = Some path \<longrightarrow>
          resolve_phandle self phandle_value = (Inr (Some path), self)"
    by (simp add: general)
  moreover have "\<exists>r. resolve_phandle self phandle_value = (Inr r, self)"
    by (simp add: general)
  ultimately show ?thesis using absent present by blast
qed

theorem resolve_phandle_lookup_witness:
  "6 \<notin> dom (phandle_map (DtbParser (\<lambda>pr. True) example_blob))
   \<and> 6 \<notin> fst ` set (declared (\<lambda>pr. True) example_blob)
   \<and> resolve_phandle (DtbParser (\<lambda>pr. True) example_blob) 6
       = (Inr None, DtbParser (\<lambda>pr. True) example_blob)
   \<and> phandle_map (DtbParser (\<lambda>pr. True) example_blob) 5 = Some ''/spi@2000''
   \<and> 5 \<in> fst ` set (declared (\<lambda>pr. True) example_blob)
   \<and> resolve_phandle (DtbParser (\<lambda>pr. True) example_blob) 5
       = (Inr (Some ''/spi@2000''), DtbParser (\<lambda>pr. True) example_blob)"
proof -
  have m: "phandle_map (DtbParser (\<lambda>pr. True) example_blob)
             = map_of (rev [(5, ''/uart@1000''), (5, ''/spi@2000'')])"
    by (simp add: DtbParser_def build_phandle_map_declared declared_example)
  have a: "6 \<notin> dom (phandle_map (DtbParser (\<lambda>pr. True) example_blob))"
    and b: "phandle_map (DtbParser (\<lambda>pr. True) example_blob) 5 = Some ''/spi@2000''"
    by (simp_all add: m dom_def)
  have c: "6 \<notin> fst ` set (declared (\<lambda>pr. True) example_blob)"
    and d: "5 \<in> fst ` set (declared (\<lambda>pr. True) example_blob)"
    by (simp_all add: declared_example)
  show ?thesis
    using a b c d
      resolve_phandle_lookup [of 6 "DtbParser (\<lambda>pr. True) example_blob" _ "\<lambda>pr. True" example_blob]
      resolve_phandle_lookup [of 5 "DtbParser (\<lambda>pr. True) example_blob" "''/spi@2000''"
        "\<lambda>pr. True" example_blob]
    by simp
qed

end
